theory Spec2Isabelle
  imports Main "HOL-Library.Word"
begin

section \<open>Machine data\<close>

text \<open>
  The comm module (\<^verbatim>\<open>src/src/graphlab/comm/mpi_comm.cpp\<close>) works on bytes and on
  \<^verbatim>\<open>size_t\<close> counters. A byte is an \<open>8 word\<close>. A \<^verbatim>\<open>size_t\<close> is a natural number
  below \<open>2 ^ 64\<close>; where the source's arithmetic can leave that range the wrap-around
  is written out (\<open>add_size_t\<close>, \<open>sub_size_t\<close>, and the final \<open>mod\<close> of
  \<open>get_padded_length\<close>). The transport element is \<^verbatim>\<open>double\<close>, so
  \<^verbatim>\<open>sizeof(send_type)\<close> is 8, and \<^verbatim>\<open>sizeof(comm_header)\<close> \<open>=\<close> \<^verbatim>\<open>sizeof(size_t)\<close> is 8.
\<close>

type_synonym byte = "8 word"

definition add_size_t :: "nat \<Rightarrow> nat \<Rightarrow> nat" where
  "add_size_t a b = (a + b) mod 2 ^ 64"

definition sub_size_t :: "nat \<Rightarrow> nat \<Rightarrow> nat" where
  "sub_size_t a b = (a + 2 ^ 64 - b) mod 2 ^ 64"

text \<open>
  The element counts and element displacements that go to the transport are C
  \<^verbatim>\<open>int\<close> (\<^verbatim>\<open>int send_buffer_sizes[_size]\<close>, and \<^verbatim>\<open>_offset_by_datatype\<close>, which is
  the \<^verbatim>\<open>sdispls\<close> argument of \<^verbatim>\<open>MPI_Alltoallv\<close>). Both are assigned from \<^verbatim>\<open>size_t\<close>
  quotients: the store keeps the low 32 bits, read in two's complement.
\<close>

definition int_of_size_t :: "nat \<Rightarrow> int" where
  "int_of_size_t n = sint (word_of_nat n :: 32 word)"

text \<open>
  \<^verbatim>\<open>size_t get_padded_length(size_t length)\<close>: the quotient, plus one when there is a
  remainder, times the element size. Only the multiplication can overflow.
\<close>

definition get_padded_length :: "nat \<Rightarrow> nat" where
  "get_padded_length len =
     ((len div 8 + (if len mod 8 > 0 then 1 else 0)) * 8) mod 2 ^ 64"

text \<open>
  \<^verbatim>\<open>struct comm_header { size_t length; }\<close> travels as its object representation:
  eight bytes, least significant first. \<open>header_bytes\<close> is what \<^verbatim>\<open>send\<close> stages from
  \<^verbatim>\<open>&hdr\<close>, \<open>header_length\<close> what \<^verbatim>\<open>sgetn\<close> into a \<^verbatim>\<open>comm_header\<close> reads back.
\<close>

fun le_bytes :: "nat \<Rightarrow> nat \<Rightarrow> byte list" where
  "le_bytes 0 n = []"
| "le_bytes (Suc k) n = of_nat (n mod 256) # le_bytes k (n div 256)"

fun le_value :: "byte list \<Rightarrow> nat" where
  "le_value [] = 0"
| "le_value (b # bs) = unat b + 256 * le_value bs"

definition header_bytes :: "nat \<Rightarrow> byte list" where
  "header_bytes len = le_bytes 8 len"

definition header_length :: "byte list \<Rightarrow> nat" where
  "header_length bs = le_value (take 8 bs)"

text \<open>
  Memory that is addressed by offset: a send window, or the caller's buffer as seen
  from the pointer handed to \<^verbatim>\<open>send\<close>. \<open>mem_write\<close> is \<^verbatim>\<open>memcpy\<close> into it,
  \<open>mem_read\<close> the run of bytes an exchange ships from it. Every offset of a memory
  can be read: a window is taken to be mapped wherever the module writes it, and the
  caller's buffer to be readable wherever \<^verbatim>\<open>memcpy\<close> reads it, which is up to seven
  bytes past the payload.
\<close>

type_synonym memory = "nat \<Rightarrow> byte"

definition mem_write :: "memory \<Rightarrow> nat \<Rightarrow> byte list \<Rightarrow> memory" where
  "mem_write m a bs = (\<lambda>x. if a \<le> x \<and> x < a + length bs then bs ! (x - a) else m x)"

definition mem_read :: "memory \<Rightarrow> nat \<Rightarrow> nat \<Rightarrow> byte list" where
  "mem_read m a n = map m [a..<a + n]"

section \<open>The comm object\<close>

text \<open>
  One receive buffer per source peer. \<open>buffer\<close> is the \<^verbatim>\<open>std::stringbuf\<close>: \<^verbatim>\<open>sputn\<close>
  appends, \<^verbatim>\<open>sgetn\<close> takes from the front. The mutex is not modelled: the model is
  of one thread at a time, so every lock is free when it is taken.
\<close>

record receive_buffer_type =
  buflen :: nat
  buffer :: "byte list"
  next_message_length :: nat
  padded_next_message_length :: nat

text \<open>
  The members of \<^verbatim>\<open>mpi_comm\<close> the module reads and writes. The two send groups are
  indexed by 0 and 1 (\<open>sendlength\<close>, \<open>send_base\<close>, \<open>last_garbage_collect_ms\<close>). A send
  window is known by its contents. The reference counts guard writers on other threads
  and are left out with them; the two communicators belong to the transport.
\<close>

record mpi_comm =
  comm_rank :: nat
  comm_size :: nat
  send_window_size :: nat
  max_sendlength_per_machine :: nat
  offset :: "nat list"
  offset_by_datatype :: "int list"
  cur_send_buffer :: nat
  sendlength :: "nat \<Rightarrow> nat list"
  send_base :: "nat \<Rightarrow> memory"
  last_garbage_collect_ms :: "nat \<Rightarrow> nat"
  receive_buffer :: "receive_buffer_type list"
  last_receive_buffer_read_from :: nat
  num_nodes_flushing_threads_done :: nat
  flushing_thread_done :: bool

text \<open>
  The constructor. \<open>rank\<close> and \<open>n\<close> come from the transport (\<open>n\<close> is at least 1 there;
  the division by \<open>n\<close> is the source's), \<open>t0\<close> and \<open>t1\<close> are the two clock readings.
  A fresh anonymous mapping is zero-filled.
\<close>

definition fresh_window :: memory where
  "fresh_window = (\<lambda>_. 0)"

definition empty_receive_buffer :: receive_buffer_type where
  "empty_receive_buffer =
     \<lparr>buflen = 0, buffer = [], next_message_length = 0, padded_next_message_length = 0\<rparr>"

definition mpi_comm_init :: "nat \<Rightarrow> nat \<Rightarrow> nat \<Rightarrow> nat \<Rightarrow> nat \<Rightarrow> mpi_comm" where
  "mpi_comm_init rank n send_window t0 t1 =
     (let per_machine = (send_window div n) div 8 * 8 in
      \<lparr>comm_rank = rank,
       comm_size = n,
       send_window_size = send_window,
       max_sendlength_per_machine = per_machine,
       offset = map (\<lambda>i. i * per_machine) [0..<n],
       offset_by_datatype = map (\<lambda>i. int_of_size_t (i * per_machine div 8)) [0..<n],
       cur_send_buffer = 0,
       sendlength = (\<lambda>_. replicate n 0),
       send_base = (\<lambda>_. fresh_window),
       last_garbage_collect_ms = (\<lambda>g. if g = 0 then t0 else t1),
       receive_buffer = replicate n empty_receive_buffer,
       last_receive_buffer_read_from = 0,
       num_nodes_flushing_threads_done = 0,
       flushing_thread_done = False\<rparr>)"

section \<open>Receive framing\<close>

text \<open>
  The bodies of \<^verbatim>\<open>locked_read_header_from_buffer\<close>, \<^verbatim>\<open>insert_receive_buffer\<close> and
  \<^verbatim>\<open>receive(int, size_t*)\<close> on the buffer \<^verbatim>\<open>curbuf\<close> they bind, then the members
  themselves, which apply the body at \<^verbatim>\<open>_receive_buffer[idx]\<close>. The index is within
  the vector in every call the module makes; theorems about the members say so.
\<close>

definition locked_read_header_curbuf :: "receive_buffer_type \<Rightarrow> receive_buffer_type" where
  "locked_read_header_curbuf curbuf =
     (if next_message_length curbuf = 0 \<and> buflen curbuf \<ge> 8 then
        let header = take 8 (buffer curbuf) in
        curbuf\<lparr>buffer := drop 8 (buffer curbuf),
               next_message_length := header_length header,
               padded_next_message_length := get_padded_length (header_length header),
               buflen := buflen curbuf - 8\<rparr>
      else curbuf)"

definition insert_receive_curbuf :: "byte list \<Rightarrow> receive_buffer_type \<Rightarrow> receive_buffer_type" where
  "insert_receive_curbuf v curbuf =
     locked_read_header_curbuf
       (curbuf\<lparr>buffer := buffer curbuf @ v, buflen := buflen curbuf + length v\<rparr>)"

text \<open>
  \<^verbatim>\<open>receive\<close> returns the malloc'ed block (the padded message) and writes the unpadded
  length through \<^verbatim>\<open>length\<close>; \<open>None\<close> is the \<^verbatim>\<open>NULL\<close> return.
\<close>

definition receive_curbuf ::
  "receive_buffer_type \<Rightarrow> (byte list \<times> nat) option \<times> receive_buffer_type" where
  "receive_curbuf curbuf =
     (if padded_next_message_length curbuf = 0 \<or>
         padded_next_message_length curbuf > buflen curbuf then (None, curbuf)
      else if padded_next_message_length curbuf > 0 \<and>
              padded_next_message_length curbuf \<le> buflen curbuf then
        let ret = take (padded_next_message_length curbuf) (buffer curbuf);
            b1 = curbuf\<lparr>buffer := drop (padded_next_message_length curbuf) (buffer curbuf),
                        buflen := buflen curbuf - padded_next_message_length curbuf\<rparr>;
            len = next_message_length b1;
            b2 = b1\<lparr>next_message_length := 0, padded_next_message_length := 0\<rparr>
        in (Some (ret, len), locked_read_header_curbuf b2)
      else (None, curbuf))"

definition locked_read_header_from_buffer :: "nat \<Rightarrow> mpi_comm \<Rightarrow> mpi_comm" where
  "locked_read_header_from_buffer idx c =
     c\<lparr>receive_buffer :=
         (receive_buffer c)[idx := locked_read_header_curbuf (receive_buffer c ! idx)]\<rparr>"

definition insert_receive_buffer :: "nat \<Rightarrow> byte list \<Rightarrow> mpi_comm \<Rightarrow> mpi_comm" where
  "insert_receive_buffer idx v c =
     c\<lparr>receive_buffer :=
         (receive_buffer c)[idx := insert_receive_curbuf v (receive_buffer c ! idx)]\<rparr>"

definition receive :: "nat \<Rightarrow> mpi_comm \<Rightarrow> (byte list \<times> nat) option \<times> mpi_comm" where
  "receive sourcemachine c =
     (case receive_curbuf (receive_buffer c ! sourcemachine) of
        (ret, curbuf) \<Rightarrow>
          (ret, c\<lparr>receive_buffer := (receive_buffer c)[sourcemachine := curbuf]\<rparr>))"

text \<open>
  \<^verbatim>\<open>receive(int*, size_t*)\<close>: the sweep over \<open>j\<close>, from \<open>i = _last_receive_buffer_read_from + 1\<close>.
  A hit returns the block, the source \<open>(j + i) % _size\<close> and the length, and stores \<open>j\<close>
  in \<^verbatim>\<open>_last_receive_buffer_read_from\<close>.
\<close>

function receive_sweep ::
  "nat \<Rightarrow> nat \<Rightarrow> mpi_comm \<Rightarrow> (byte list \<times> nat \<times> nat) option \<times> mpi_comm" where
  "receive_sweep i j c =
     (if j < comm_size c then
        (case receive ((j + i) mod comm_size c) c of
           (Some (ret, len), c') \<Rightarrow>
             (Some (ret, (j + i) mod comm_size c, len),
              c'\<lparr>last_receive_buffer_read_from := j\<rparr>)
         | (None, c') \<Rightarrow> receive_sweep i (Suc j) c')
      else (None, c))"
  by pat_completeness auto
termination
  by (relation "measure (\<lambda>(i, j, c). comm_size c - j)")
     (auto simp: receive_def split: prod.splits)

declare receive_sweep.simps [simp del]

definition receive_any :: "mpi_comm \<Rightarrow> (byte list \<times> nat \<times> nat) option \<times> mpi_comm" where
  "receive_any c = receive_sweep (last_receive_buffer_read_from c + 1) 0 c"

section \<open>The send path\<close>

text \<open>
  \<^verbatim>\<open>actual_send\<close>. The group is acquired at the first attempt and the compare-and-swap
  succeeds at the first attempt, since no other thread runs between the read and the
  write. \<open>data\<close> is the caller's memory from the pointer on: \<^verbatim>\<open>memcpy\<close> reads
  \<open>maxwrite\<close> bytes of it, which may be up to seven more than \<open>len\<close>. The assertion
  \<^verbatim>\<open>maxwrite <= paddedlength\<close> is a property of \<open>min\<close>. The result is the return
  value and the comm object afterwards.
\<close>

definition actual_send :: "nat \<Rightarrow> memory \<Rightarrow> nat \<Rightarrow> mpi_comm \<Rightarrow> nat \<times> mpi_comm" where
  "actual_send targetmachine data len c =
     (let paddedlength = get_padded_length len;
          target_buffer = cur_send_buffer c;
          idx = target_buffer mod 2;
          oldsendlength = sendlength c idx ! targetmachine;
          maxwrite = min (sub_size_t (max_sendlength_per_machine c) oldsendlength) paddedlength
      in if maxwrite = 0 then (0, c)
         else (min maxwrite len,
               c\<lparr>sendlength := (sendlength c)
                     (idx := (sendlength c idx)
                        [targetmachine := add_size_t oldsendlength maxwrite]),
                 send_base := (send_base c)
                     (idx := mem_write (send_base c idx)
                        (offset c ! targetmachine + oldsendlength)
                        (mem_read data 0 maxwrite))\<rparr>))"

text \<open>
  \<^verbatim>\<open>reset_send_buffer\<close>: the loop that stores 0 in every counter of the group, then the
  reclamation test on the clock reading \<open>curtime\<close>. \<^verbatim>\<open>garbage_collect\<close> unmaps the
  window and maps a new one.
\<close>

function clear_sendlength :: "nat \<Rightarrow> nat \<Rightarrow> nat list \<Rightarrow> nat list" where
  "clear_sendlength i n xs =
     (if i < n then clear_sendlength (Suc i) n (xs[i := 0]) else xs)"
  by pat_completeness auto
termination
  by (relation "measure (\<lambda>(i, n, xs). n - i)") auto

declare clear_sendlength.simps [simp del]

definition garbage_collect :: "nat \<Rightarrow> mpi_comm \<Rightarrow> mpi_comm" where
  "garbage_collect idx c = c\<lparr>send_base := (send_base c)(idx := fresh_window)\<rparr>"

definition reset_send_buffer :: "nat \<Rightarrow> nat \<Rightarrow> mpi_comm \<Rightarrow> mpi_comm" where
  "reset_send_buffer idx curtime c =
     (let c1 = c\<lparr>sendlength := (sendlength c)
                    (idx := clear_sendlength 0 (comm_size c) (sendlength c idx))\<rparr>
      in if sub_size_t curtime (last_garbage_collect_ms c1 idx) > 10000 then
           (garbage_collect idx c1)
             \<lparr>last_garbage_collect_ms := (last_garbage_collect_ms c1)(idx := curtime)\<rparr>
         else c1)"

text \<open>
  \<^verbatim>\<open>swap_buffers\<close>: \<^verbatim>\<open>inc_ret_last\<close> returns the old counter; the spin on the reference
  count ends at once when no writer is active.
\<close>

definition swap_buffers :: "mpi_comm \<Rightarrow> nat \<times> mpi_comm" where
  "swap_buffers c =
     (cur_send_buffer c mod 2, c\<lparr>cur_send_buffer := add_size_t (cur_send_buffer c) 1\<rparr>)"

text \<open>
  What one flush takes from outside the process: whether the two collective calls
  succeed, the run of bytes the exchange brings from each source, the number of other
  peers whose flushing thread is done (the all-reduce adds the local flag to it), and
  the clock reading of the reset.
\<close>

record flush_env =
  alltoall_ok :: bool
  alltoallv_ok :: bool
  recv_from :: "nat \<Rightarrow> byte list"
  others_done :: nat
  timer_now :: nat

datatype abort =
    Assert_target_range
  | Assert_length_positive
  | Assert_sendlength_aligned
  | Assert_mpi_success

text \<open>
  What \<^verbatim>\<open>MPI_Alltoallv\<close> takes from the send buffer for one peer: \<open>sendcount\<close>
  elements of 8 bytes, starting \<open>sdispl\<close> elements from the start of the buffer. The
  interface defines no block for a negative count, and none for a block that starts
  before the buffer: \<open>None\<close> stands for those. With a count of 0 nothing is read.
\<close>

definition alltoallv_block :: "memory \<Rightarrow> int \<Rightarrow> int \<Rightarrow> byte list option" where
  "alltoallv_block sendbuf sdispl sendcount =
     (if sendcount < 0 then None
      else if sendcount = 0 then Some []
      else if sdispl < 0 then None
      else Some (mem_read sendbuf (nat sdispl * 8) (nat sendcount * 8)))"

text \<open>
  \<^verbatim>\<open>actual_flush\<close>: the alignment assertion on every counter of the group, the two
  collective calls, the scatter into the receive buffers, the reset. The value returned
  with the comm object is the exchange: for each peer, the block the transport takes
  from the window, \<^verbatim>\<open>send_buffer_sizes[i]\<close> elements from element
  \<^verbatim>\<open>_offset_by_datatype[i]\<close>, both of them \<^verbatim>\<open>int\<close>. Whether a collective call
  succeeds is the transport's answer.
\<close>

type_synonym exchange = "byte list option list"

definition actual_flush ::
  "nat \<Rightarrow> flush_env \<Rightarrow> mpi_comm \<Rightarrow> abort + (exchange \<times> mpi_comm)" where
  "actual_flush idx env c =
     (if \<not> list_all (\<lambda>i. sendlength c idx ! i mod 8 = 0) [0..<comm_size c]
      then Inl Assert_sendlength_aligned
      else
        let send_buffer_sizes =
              map (\<lambda>i. int_of_size_t (sendlength c idx ! i div 8)) [0..<comm_size c] in
        if \<not> alltoall_ok env then Inl Assert_mpi_success
        else if \<not> alltoallv_ok env then Inl Assert_mpi_success
        else
          let sent = map (\<lambda>i. alltoallv_block (send_base c idx)
                                  (offset_by_datatype c ! i) (send_buffer_sizes ! i))
                         [0..<comm_size c];
              c1 = fold (\<lambda>i c. if recv_from env i \<noteq> []
                                 then insert_receive_buffer i (recv_from env i) c else c)
                        [0..<comm_size c] c
          in Inr (sent, reset_send_buffer idx (timer_now env) c1))"

text \<open>
  \<^verbatim>\<open>background_flush_inner_op\<close>, which is \<^verbatim>\<open>flush\<close>: nothing once every peer's
  flushing thread is done; otherwise swap, exchange, and the all-reduce of the done
  flags. The first component lists the exchanges made (none or one).
\<close>

definition background_flush_inner_op ::
  "flush_env \<Rightarrow> mpi_comm \<Rightarrow> abort + (exchange list \<times> mpi_comm)" where
  "background_flush_inner_op env c =
     (if num_nodes_flushing_threads_done c < comm_size c then
        (case swap_buffers c of
           (idx, c1) \<Rightarrow>
             (case actual_flush idx env c1 of
                Inl e \<Rightarrow> Inl e
              | Inr (sent, c2) \<Rightarrow>
                  Inr ([sent],
                       c2\<lparr>num_nodes_flushing_threads_done :=
                            (if flushing_thread_done c2 then 1 else 0) + others_done env\<rparr>)))
      else Inr ([], c))"

definition flush :: "flush_env \<Rightarrow> mpi_comm \<Rightarrow> abort + (exchange list \<times> mpi_comm)" where
  "flush env c = background_flush_inner_op env c"

text \<open>
  The two loops of \<^verbatim>\<open>send\<close> have one body: stage, advance the pointer, and flush when
  bytes remain. \<open>world\<close> answers the flushes in turn and \<open>log\<close> collects the exchanges.
  The loop need not end, so its result is an option: \<open>None\<close> is a call that never
  returns.
\<close>

partial_function (option) send_loop ::
  "(nat \<Rightarrow> flush_env) \<Rightarrow> exchange list \<Rightarrow> nat \<Rightarrow> memory \<Rightarrow> nat \<Rightarrow> mpi_comm \<Rightarrow>
   (abort + (exchange list \<times> (nat \<Rightarrow> flush_env) \<times> mpi_comm)) option" where
  "send_loop world log targetmachine ptr remaining c =
     (if remaining > 0 then
        (case actual_send targetmachine ptr remaining c of
           (sent, c1) \<Rightarrow>
             if remaining - sent > 0 then
               (case flush (world 0) c1 of
                  Inl e \<Rightarrow> Some (Inl e)
                | Inr (exchanged, c2) \<Rightarrow>
                    send_loop (\<lambda>k. world (Suc k)) (log @ exchanged) targetmachine
                      (\<lambda>i. ptr (i + sent)) (remaining - sent) c2)
             else send_loop world log targetmachine (\<lambda>i. ptr (i + sent)) (remaining - sent) c1)
      else Some (Inr (log, world, c)))"

definition send ::
  "(nat \<Rightarrow> flush_env) \<Rightarrow> nat \<Rightarrow> memory \<Rightarrow> nat \<Rightarrow> mpi_comm \<Rightarrow>
   (abort + (exchange list \<times> (nat \<Rightarrow> flush_env) \<times> mpi_comm)) option" where
  "send world targetmachine data len c =
     (if \<not> targetmachine < comm_size c then Some (Inl Assert_target_range)
      else if \<not> len > 0 then Some (Inl Assert_length_positive)
      else
        (case send_loop world [] targetmachine (\<lambda>i. header_bytes len ! i) 8 c of
           None \<Rightarrow> None
         | Some (Inl e) \<Rightarrow> Some (Inl e)
         | Some (Inr (log1, world1, c1)) \<Rightarrow> send_loop world1 log1 targetmachine data len c1))"

section \<open>Histories of a receive buffer\<close>

text \<open>
  The three things that happen to a receive buffer, and a history of them applied in
  order. \<open>inserted_bytes\<close> is the byte stream the inserts of a history brought.
\<close>

datatype buffer_op = Insert "byte list" | Read_header | Receive

fun apply_buffer_op :: "buffer_op \<Rightarrow> receive_buffer_type \<Rightarrow> receive_buffer_type" where
  "apply_buffer_op (Insert v) b = insert_receive_curbuf v b"
| "apply_buffer_op Read_header b = locked_read_header_curbuf b"
| "apply_buffer_op Receive b = snd (receive_curbuf b)"

fun inserted_bytes :: "buffer_op list \<Rightarrow> byte list" where
  "inserted_bytes [] = []"
| "inserted_bytes (Insert v # ops) = v @ inserted_bytes ops"
| "inserted_bytes (_ # ops) = inserted_bytes ops"

definition run_buffer_ops :: "buffer_op list \<Rightarrow> receive_buffer_type \<Rightarrow> receive_buffer_type" where
  "run_buffer_ops ops b = fold apply_buffer_op ops b"

text \<open>
  What a buffer keeps true of the stream it was fed: \<open>buflen\<close> is the length of the
  queue, the padded length is the padding of the pending length, the queue is what is
  left of the stream, and a pending length was read from the eight bytes that were
  taken off the stream just before the queue's front.
\<close>

definition framing_inv :: "byte list \<Rightarrow> receive_buffer_type \<Rightarrow> bool" where
  "framing_inv stream b \<longleftrightarrow>
     buflen b = length (buffer b) \<and>
     padded_next_message_length b = get_padded_length (next_message_length b) \<and>
     (\<exists>consumed. stream = consumed @ buffer b \<and>
        (next_message_length b > 0 \<longrightarrow>
           8 \<le> length consumed \<and>
           header_length (drop (length consumed - 8) consumed) = next_message_length b))"

section \<open>Histories of the send counters\<close>

text \<open>
  What touches the length counters of the send groups: a stage reservation
  (\<^verbatim>\<open>actual_send\<close>), a reset of one group (\<^verbatim>\<open>reset_send_buffer\<close>), and the swap that
  makes the other group current. A history is well formed for \<open>n\<close> peers when every
  target is a peer and every group index is 0 or 1.
\<close>

datatype send_op = Stage nat memory nat | Reset nat nat | Swap

fun apply_send_op :: "send_op \<Rightarrow> mpi_comm \<Rightarrow> mpi_comm" where
  "apply_send_op (Stage targetmachine data len) c = snd (actual_send targetmachine data len c)"
| "apply_send_op (Reset idx curtime) c = reset_send_buffer idx curtime c"
| "apply_send_op Swap c = snd (swap_buffers c)"

fun send_op_ok :: "nat \<Rightarrow> send_op \<Rightarrow> bool" where
  "send_op_ok n (Stage targetmachine data len) \<longleftrightarrow> targetmachine < n"
| "send_op_ok n (Reset idx curtime) \<longleftrightarrow> idx < 2"
| "send_op_ok n Swap \<longleftrightarrow> True"

definition run_send_ops :: "send_op list \<Rightarrow> mpi_comm \<Rightarrow> mpi_comm" where
  "run_send_ops ops c = fold apply_send_op ops c"

text \<open>
  Invariant I1 with the shape it needs: the per-peer capacity is a \<^verbatim>\<open>size_t\<close> and a
  multiple of 8, each group has one counter per peer, and every counter is a multiple
  of 8 within the capacity.
\<close>

definition lengths_inv :: "mpi_comm \<Rightarrow> bool" where
  "lengths_inv c \<longleftrightarrow>
     max_sendlength_per_machine c < 2 ^ 64 \<and>
     max_sendlength_per_machine c mod 8 = 0 \<and>
     (\<forall>g < 2. length (sendlength c g) = comm_size c \<and>
        list_all (\<lambda>l. l \<le> max_sendlength_per_machine c \<and> l mod 8 = 0) (sendlength c g))"

section \<open>What a sender ships\<close>

text \<open>
  \<open>staged t c\<close> is the run of bytes waiting for peer \<open>t\<close> in the current group: the
  slot of \<open>t\<close> up to its counter. \<open>shipped t log\<close> lists, exchange by exchange, the
  block that went to peer \<open>t\<close>. A world is well-behaved for \<open>n\<close> peers when every flush it
  answers succeeds in both collective calls and reports fewer than \<open>n\<close> other peers
  done (each of the other \<open>n - 1\<close> peers adds 0 or 1 to the all-reduce).
\<close>

definition staged :: "nat \<Rightarrow> mpi_comm \<Rightarrow> byte list" where
  "staged t c =
     mem_read (send_base c (cur_send_buffer c mod 2)) (offset c ! t)
       (sendlength c (cur_send_buffer c mod 2) ! t)"

definition shipped :: "nat \<Rightarrow> exchange list \<Rightarrow> byte list option list" where
  "shipped t log = map (\<lambda>runs. runs ! t) log"

definition world_ok :: "nat \<Rightarrow> (nat \<Rightarrow> flush_env) \<Rightarrow> bool" where
  "world_ok n world \<longleftrightarrow>
     (\<forall>k. alltoall_ok (world k) \<and> alltoallv_ok (world k) \<and> others_done (world k) < n)"

text \<open>
  The states of a comm object between the calls of one sending thread: invariant I1,
  the capacity the constructor computed, the group that is not current drained, the
  byte offsets and the \<^verbatim>\<open>int\<close> element offsets the constructor stored, and the local
  flushing thread not done.
\<close>

definition sender_inv :: "mpi_comm \<Rightarrow> bool" where
  "sender_inv c \<longleftrightarrow>
     lengths_inv c \<and>
     0 < comm_size c \<and>
     max_sendlength_per_machine c = send_window_size c div comm_size c div 8 * 8 \<and>
     sendlength c ((cur_send_buffer c + 1) mod 2) = replicate (comm_size c) 0 \<and>
     (\<forall>i < comm_size c.
        offset c ! i = i * max_sendlength_per_machine c \<and>
        offset_by_datatype c ! i = int_of_size_t (offset c ! i div 8)) \<and>
     num_nodes_flushing_threads_done c < comm_size c \<and>
     \<not> flushing_thread_done c"

section \<open>Send, deliver, drain\<close>





lemma receive_curbuf_none:
  "padded_next_message_length b = 0 \<or> padded_next_message_length b > buflen b \<Longrightarrow>
   receive_curbuf b = (None, b)"
  by (auto simp: receive_curbuf_def)

lemma receive_curbuf_some:
  "\<not> (padded_next_message_length b = 0 \<or> padded_next_message_length b > buflen b) \<Longrightarrow>
   receive_curbuf b =
     (Some (take (padded_next_message_length b) (buffer b), next_message_length b),
      locked_read_header_curbuf
        (b\<lparr>buffer := drop (padded_next_message_length b) (buffer b),
           buflen := buflen b - padded_next_message_length b,
           next_message_length := 0, padded_next_message_length := 0\<rparr>))"
  by (simp add: receive_curbuf_def Let_def)

lemma receive_nth:
  "receive s c =
     (fst (receive_curbuf (receive_buffer c ! s)),
      c\<lparr>receive_buffer := (receive_buffer c)[s := snd (receive_curbuf (receive_buffer c ! s))]\<rparr>)"
  by (simp add: receive_def split: prod.splits)








text \<open>
  A flush environment in which nothing arrives and nobody is done, and a comm object
  whose window of 16 bytes leaves each of the two peers a slot of 8.
\<close>

definition quiet_env :: flush_env where
  "quiet_env = \<lparr>alltoall_ok = True, alltoallv_ok = True, recv_from = (\<lambda>_. []),
                others_done = 0, timer_now = 0\<rparr>"

definition tight_comm :: mpi_comm where
  "tight_comm = mpi_comm_init 0 2 16 0 0"

section \<open>Small comm objects\<close>

text \<open>
  Peer 0 of two, with a window of 4096 bytes (\<open>two_peer_comm\<close>). In \<open>one_message_comm\<close> one frame from
  peer 1 has arrived: the header of a 5-byte message and its padded payload. In
  \<open>zero_frame_comm\<close> the queue from peer 1 starts with a header whose length is 0,
  followed by the header of a 3-byte message.
\<close>

definition two_peer_comm :: mpi_comm where
  "two_peer_comm = mpi_comm_init 0 2 4096 0 0"

text \<open>
  \<open>staged_comm\<close> is \<open>two_peer_comm\<close> after five bytes (each 7) were staged for peer 1:
  eight bytes of group 0 are reserved in the slot at offset 2048.
\<close>

definition staged_comm :: mpi_comm where
  "staged_comm = snd (actual_send 1 (\<lambda>_. 7) 5 two_peer_comm)"

definition one_message_comm :: mpi_comm where
  "one_message_comm =
     insert_receive_buffer 1 (header_bytes 5 @ [1, 2, 3, 4, 5, 0, 0, 0])
       (mpi_comm_init 0 2 4096 0 0)"

definition zero_frame_comm :: mpi_comm where
  "zero_frame_comm =
     (mpi_comm_init 0 2 4096 0 0)
       \<lparr>receive_buffer :=
          [empty_receive_buffer,
           \<lparr>buflen = 16,
            buffer = [0, 0, 0, 0, 0, 0, 0, 0, 3, 0, 0, 0, 0, 0, 0, 0],
            next_message_length = 0, padded_next_message_length = 0\<rparr>]\<rparr>"


section \<open>Padding\<close>

lemma round_up_8:
  "(len div 8 + (if len mod 8 > 0 then 1 else 0)) * 8 = (len + 7) div 8 * (8::nat)"
  by (simp split: if_splits) presburger

lemma get_padded_length_exact:
  assumes "len + 7 < 2 ^ 64"
  shows "get_padded_length len = (len + 7) div 8 * 8"
proof -
  have "(len + 7) div 8 * 8 \<le> len + 7" by simp
  with assms have "(len + 7) div 8 * 8 < 2 ^ 64" by linarith
  then show ?thesis
    unfolding get_padded_length_def round_up_8 by simp
qed

lemma get_padded_length_mod8: "get_padded_length len mod 8 = 0"
proof -
  have "(8::nat) dvd 2 ^ 64" by simp
  then show ?thesis unfolding get_padded_length_def
    by (simp add: mod_mod_cancel)
qed

lemma get_padded_length_0: "get_padded_length 0 = 0"
  by (simp add: get_padded_length_def)

lemma get_padded_length_less: "get_padded_length len < 2 ^ 64"
  by (simp add: get_padded_length_def)

lemma get_padded_length_top:
  assumes "len < 2 ^ 64" and "\<not> len + 7 < 2 ^ 64"
  shows "get_padded_length len = 0"
proof -
  define k where "k = len - 18446744073709551608"
  define a :: nat where "a = 2305843009213693951"
  have k: "0 < k" "k < 8" and len: "len = a * 8 + k"
    using assms by (simp_all add: k_def a_def)
  have d: "len div 8 = a" unfolding len using k(2) by simp
  have m: "len mod 8 = k" unfolding len using k(2) by simp
  have "(a + 1) * 8 mod 2 ^ 64 = 0" by (simp add: a_def)
  then show ?thesis unfolding get_padded_length_def d m using k(1) by simp
qed

lemma get_padded_length_max: "get_padded_length 18446744073709551615 = 0"
  by (simp add: get_padded_length_def)

text \<open>
  C9. For every length whose round-up fits a \<^verbatim>\<open>size_t\<close> (\<open>len + 7 < 2 ^ 64\<close>),
  \<open>get_padded_length len\<close> is the least multiple of 8 that is at least \<open>len\<close>: it is
  divisible by 8, lies in \<open>[len, len + 8)\<close>, is 0 exactly when \<open>len\<close> is 0, and no
  smaller multiple of 8 reaches \<open>len\<close>.
\<close>

theorem get_padded_length_least_multiple:
  assumes "len + 7 < 2 ^ 64"
  shows "get_padded_length len mod 8 = 0 \<and>
         len \<le> get_padded_length len \<and>
         get_padded_length len < len + 8 \<and>
         (get_padded_length len = 0 \<longleftrightarrow> len = 0) \<and>
         (\<forall>m. m mod 8 = 0 \<and> len \<le> m \<longrightarrow> get_padded_length len \<le> m)"
proof -
  have e: "get_padded_length len = (len + 7) div 8 * 8"
    using assms by (rule get_padded_length_exact)
  have least: "(len + 7) div 8 * 8 \<le> m" if "m mod 8 = 0 \<and> len \<le> m" for m
    using that by presburger
  have "len \<le> (len + 7) div 8 * 8" by presburger
  moreover have "(len + 7) div 8 * 8 < len + 8" by presburger
  moreover have "((len + 7) div 8 * 8 = 0) = (len = 0)" by presburger
  ultimately show ?thesis unfolding e using least by simp
qed

theorem get_padded_length_least_multiple_witness:
  "(13::nat) + 7 < 2 ^ 64 \<and> get_padded_length 13 = 16 \<and> get_padded_length 13 mod 8 = 0 \<and>
   13 \<le> get_padded_length 13 \<and> get_padded_length 13 < 13 + 8"
  using get_padded_length_least_multiple [of 13]
  by (simp add: get_padded_length_def)

text \<open>
  C9, as stated for every length, fails at the top of the \<^verbatim>\<open>size_t\<close> range: for
  \<open>len = 2 ^ 64 - 1\<close> the product wraps to 0, which is below \<open>len\<close> and is 0 although
  \<open>len\<close> is not.
\<close>

theorem get_padded_length_wraps:
  "get_padded_length 18446744073709551615 = 0 \<and>
   \<not> (18446744073709551615 \<le> get_padded_length 18446744073709551615) \<and>
   \<not> (get_padded_length 18446744073709551615 = 0 \<longleftrightarrow> (18446744073709551615::nat) = 0)"
  by (simp add: get_padded_length_def)

section \<open>Evaluation helpers\<close>

lemma nat8: "(8::nat) = Suc (Suc (Suc (Suc (Suc (Suc (Suc (Suc 0)))))))"
  by simp

lemma header_bytes_unfold:
  "header_bytes n =
     [of_nat (n mod 256), of_nat (n div 256 mod 256),
      of_nat (n div 256 div 256 mod 256),
      of_nat (n div 256 div 256 div 256 mod 256),
      of_nat (n div 256 div 256 div 256 div 256 mod 256),
      of_nat (n div 256 div 256 div 256 div 256 div 256 mod 256),
      of_nat (n div 256 div 256 div 256 div 256 div 256 div 256 mod 256),
      of_nat (n div 256 div 256 div 256 div 256 div 256 div 256 div 256 mod 256)]"
  unfolding header_bytes_def nat8 by simp

lemma replicate_2: "replicate 2 x = [x, x]"
  by (simp add: numeral_2_eq_2)

lemma upt_0_2: "[0..<2] = [0, 1]"
  by (simp add: numeral_2_eq_2)

lemma header_bytes_5: "header_bytes 5 = [5, 0, 0, 0, 0, 0, 0, 0]"
  by (simp add: header_bytes_unfold)

lemma header_length_ff: "header_length (replicate 8 255) = 18446744073709551615"
  unfolding nat8 by (simp add: header_length_def)

lemma one_message_comm_buffers:
  "receive_buffer one_message_comm =
     [empty_receive_buffer,
      \<lparr>buflen = 8, buffer = [1, 2, 3, 4, 5, 0, 0, 0],
       next_message_length = 5, padded_next_message_length = 8\<rparr>]"
  by (simp add: one_message_comm_def insert_receive_buffer_def mpi_comm_init_def
      insert_receive_curbuf_def empty_receive_buffer_def locked_read_header_curbuf_def
      header_bytes_5 header_length_def get_padded_length_def replicate_2)

lemma one_message_comm_fields:
  "comm_size one_message_comm = 2" "last_receive_buffer_read_from one_message_comm = 0"
  by (simp_all add: one_message_comm_def insert_receive_buffer_def mpi_comm_init_def)

section \<open>The per-source receive\<close>

text \<open>
  C7. \<open>receive sourcemachine\<close> is a total function: it returns in one step. It returns
  \<open>None\<close>, leaving the comm object as it was, exactly when no complete padded message is
  buffered (the padded length is 0 or exceeds \<open>buflen\<close>). Otherwise it returns the first
  \<open>p\<close> bytes of the queue (\<open>p\<close> the padded length, and exactly \<open>p\<close> bytes, the queue
  being \<open>buflen\<close> long) with the unpadded length; the queue loses those bytes, \<open>buflen\<close>
  drops by \<open>p\<close>, both lengths are cleared, and one header consumption is attempted on
  the result.
\<close>

theorem receive_per_source:
  assumes "sourcemachine < length (receive_buffer c)"
      and "curbuf = receive_buffer c ! sourcemachine"
      and "buflen curbuf = length (buffer curbuf)"
      and "p = padded_next_message_length curbuf"
  shows "(fst (receive sourcemachine c) = None \<longleftrightarrow> p = 0 \<or> p > buflen curbuf) \<and>
         (p = 0 \<or> p > buflen curbuf \<longrightarrow> receive sourcemachine c = (None, c)) \<and>
         (\<not> (p = 0 \<or> p > buflen curbuf) \<longrightarrow>
            (\<exists>ret. receive sourcemachine c =
                (Some (ret, next_message_length curbuf),
                 c\<lparr>receive_buffer := (receive_buffer c)
                      [sourcemachine :=
                         locked_read_header_curbuf
                           (curbuf\<lparr>buffer := drop p (buffer curbuf),
                                   buflen := buflen curbuf - p,
                                   next_message_length := 0,
                                   padded_next_message_length := 0\<rparr>)]\<rparr>) \<and>
              length ret = p \<and> buffer curbuf = ret @ drop p (buffer curbuf)))"
proof (cases "p = 0 \<or> p > buflen curbuf")
  case True
  then have "receive_curbuf curbuf = (None, curbuf)"
    using assms(4) by (simp add: receive_curbuf_none)
  then have "receive sourcemachine c = (None, c)"
    using assms(1,2) by (simp add: receive_nth)
  with True show ?thesis by simp
next
  case False
  then have r: "receive_curbuf curbuf =
     (Some (take p (buffer curbuf), next_message_length curbuf),
      locked_read_header_curbuf
        (curbuf\<lparr>buffer := drop p (buffer curbuf), buflen := buflen curbuf - p,
           next_message_length := 0, padded_next_message_length := 0\<rparr>))"
    using assms(4) receive_curbuf_some [of curbuf] by simp
  from False assms(3) have "length (take p (buffer curbuf)) = p" by simp
  with False r assms(2) show ?thesis
    by (simp add: receive_nth)
qed

theorem receive_per_source_witness:
  "1 < length (receive_buffer one_message_comm) \<and>
   (\<exists>ret. fst (receive 1 one_message_comm) = Some (ret, 5) \<and> length ret = 8 \<and>
      ret = [1, 2, 3, 4, 5, 0, 0, 0]) \<and>
   receive 0 one_message_comm = (None, one_message_comm)"
proof -
  let ?b = "receive_buffer one_message_comm ! 1"
  have h1: "1 < length (receive_buffer one_message_comm)"
    by (simp add: one_message_comm_buffers)
  have h3: "buflen ?b = length (buffer ?b)"
    by (simp add: one_message_comm_buffers)
  have h4: "8 = padded_next_message_length ?b"
    by (simp add: one_message_comm_buffers)
  have b: "buflen ?b = 8" "next_message_length ?b = 5" "buffer ?b = [1, 2, 3, 4, 5, 0, 0, 0]"
    by (simp_all add: one_message_comm_buffers)
  from receive_per_source [OF h1 refl h3 h4]
  have "\<exists>ret. fst (receive 1 one_message_comm) = Some (ret, 5) \<and> length ret = 8 \<and>
      ret = [1, 2, 3, 4, 5, 0, 0, 0]"
    unfolding b by auto
  moreover
  let ?a = "receive_buffer one_message_comm ! 0"
  have g1: "0 < length (receive_buffer one_message_comm)"
    by (simp add: one_message_comm_buffers)
  have g3: "buflen ?a = length (buffer ?a)"
    by (simp add: one_message_comm_buffers empty_receive_buffer_def)
  have g4: "0 = padded_next_message_length ?a"
    by (simp add: one_message_comm_buffers empty_receive_buffer_def)
  from receive_per_source [OF g1 refl g3 g4]
  have "receive 0 one_message_comm = (None, one_message_comm)"
    by simp
  ultimately show ?thesis using h1 by simp
qed

section \<open>The framing invariant\<close>

lemma framing_inv_read_header:
  assumes "framing_inv stream b"
  shows "framing_inv stream (locked_read_header_curbuf b)"
proof (cases "next_message_length b = 0 \<and> buflen b \<ge> 8")
  case False
  then show ?thesis using assms by (auto simp: locked_read_header_curbuf_def)
next
  case True
  from assms obtain consumed where c: "stream = consumed @ buffer b"
    and l: "buflen b = length (buffer b)"
    by (auto simp: framing_inv_def)
  let ?h = "take 8 (buffer b)"
  let ?c = "consumed @ ?h"
  have len: "length ?h = 8" using True l by simp
  have "stream = ?c @ drop 8 (buffer b)" using c by simp
  moreover have "8 \<le> length ?c" using len by simp
  moreover have "drop (length ?c - 8) ?c = ?h" using len by simp
  ultimately show ?thesis
    using True l unfolding framing_inv_def locked_read_header_curbuf_def Let_def
    by (simp del: append_assoc)
qed

lemma framing_inv_insert:
  assumes "framing_inv stream b"
  shows "framing_inv (stream @ v) (insert_receive_curbuf v b)"
proof -
  have "framing_inv (stream @ v)
          (b\<lparr>buffer := buffer b @ v, buflen := buflen b + length v\<rparr>)"
    using assms unfolding framing_inv_def by auto
  then show ?thesis
    unfolding insert_receive_curbuf_def by (rule framing_inv_read_header)
qed

lemma framing_inv_receive:
  assumes "framing_inv stream b"
  shows "framing_inv stream (snd (receive_curbuf b))"
proof (cases "padded_next_message_length b = 0 \<or> padded_next_message_length b > buflen b")
  case True
  then show ?thesis using assms by (simp add: receive_curbuf_none)
next
  case False
  let ?p = "padded_next_message_length b"
  from assms obtain consumed where c: "stream = consumed @ buffer b"
    and l: "buflen b = length (buffer b)"
    by (auto simp: framing_inv_def)
  have "stream = (consumed @ take ?p (buffer b)) @ drop ?p (buffer b)" using c by simp
  then have "framing_inv stream
     (b\<lparr>buffer := drop ?p (buffer b), buflen := buflen b - ?p,
        next_message_length := 0, padded_next_message_length := 0\<rparr>)"
    using l unfolding framing_inv_def
    by (simp add: get_padded_length_0 del: append_assoc)
  then show ?thesis
    using False by (simp add: receive_curbuf_some framing_inv_read_header)
qed

lemma framing_inv_run:
  "framing_inv stream b \<Longrightarrow>
   framing_inv (stream @ inserted_bytes ops) (run_buffer_ops ops b)"
proof (induction ops arbitrary: stream b)
  case Nil
  then show ?case by (simp add: run_buffer_ops_def)
next
  case (Cons op ops)
  show ?case
  proof (cases op)
    case (Insert v)
    have "framing_inv ((stream @ v) @ inserted_bytes ops)
            (run_buffer_ops ops (insert_receive_curbuf v b))"
      by (rule Cons.IH) (rule framing_inv_insert [OF Cons.prems])
    then show ?thesis using Insert by (simp add: run_buffer_ops_def)
  next
    case Read_header
    have "framing_inv (stream @ inserted_bytes ops)
            (run_buffer_ops ops (locked_read_header_curbuf b))"
      by (rule Cons.IH) (rule framing_inv_read_header [OF Cons.prems])
    then show ?thesis using Read_header by (simp add: run_buffer_ops_def)
  next
    case Receive
    have "framing_inv (stream @ inserted_bytes ops)
            (run_buffer_ops ops (snd (receive_curbuf b)))"
      by (rule Cons.IH) (rule framing_inv_receive [OF Cons.prems])
    then show ?thesis using Receive by (simp add: run_buffer_ops_def)
  qed
qed

text \<open>
  C6 (I4). From a buffer with both lengths 0 whose \<open>buflen\<close> is the length of its queue,
  after any history of inserts, header consumptions and receives: the padded length is
  \<open>get_padded_length\<close> of the pending length, so a pending length of 0 gives a padded
  length of 0, and the converse holds whenever the pending length is at most
  \<open>2 ^ 64 - 8\<close>; \<open>buflen\<close> is the length of the queue; and the stream fed to the buffer
  splits into a consumed part and the queue, where a pending length above 0 was read
  from the last eight consumed bytes, which are no longer in the queue.
\<close>

theorem receive_framing_invariant:
  assumes "next_message_length b0 = 0"
      and "padded_next_message_length b0 = 0"
      and "buflen b0 = length (buffer b0)"
  shows "padded_next_message_length (run_buffer_ops ops b0) =
           get_padded_length (next_message_length (run_buffer_ops ops b0)) \<and>
         (next_message_length (run_buffer_ops ops b0) = 0 \<longrightarrow>
            padded_next_message_length (run_buffer_ops ops b0) = 0) \<and>
         (next_message_length (run_buffer_ops ops b0) + 7 < 2 ^ 64 \<longrightarrow>
            (next_message_length (run_buffer_ops ops b0) = 0 \<longleftrightarrow>
             padded_next_message_length (run_buffer_ops ops b0) = 0)) \<and>
         buflen (run_buffer_ops ops b0) = length (buffer (run_buffer_ops ops b0)) \<and>
         (\<exists>consumed.
            buffer b0 @ inserted_bytes ops = consumed @ buffer (run_buffer_ops ops b0) \<and>
            (next_message_length (run_buffer_ops ops b0) > 0 \<longrightarrow>
               8 \<le> length consumed \<and>
               header_length (drop (length consumed - 8) consumed) =
                 next_message_length (run_buffer_ops ops b0)))"
proof -
  let ?b = "run_buffer_ops ops b0"
  have "framing_inv (buffer b0) b0"
    using assms unfolding framing_inv_def by (simp add: get_padded_length_0)
  then have inv: "framing_inv (buffer b0 @ inserted_bytes ops) ?b"
    by (rule framing_inv_run)
  then have p: "padded_next_message_length ?b = get_padded_length (next_message_length ?b)"
    by (simp add: framing_inv_def)
  have z: "next_message_length ?b = 0 \<longrightarrow> padded_next_message_length ?b = 0"
    using p by (simp add: get_padded_length_0)
  have nz: "next_message_length ?b = 0" 
    if "next_message_length ?b + 7 < 2 ^ 64" "padded_next_message_length ?b = 0"
  proof -
    have "get_padded_length (next_message_length ?b) = (next_message_length ?b + 7) div 8 * 8"
      using that(1) by (rule get_padded_length_exact)
    with p that(2) have "(next_message_length ?b + 7) div 8 * 8 = 0" by simp
    then show ?thesis by presburger
  qed
  from inv p z nz show ?thesis unfolding framing_inv_def by blast
qed

theorem receive_framing_invariant_witness:
  "next_message_length
     (run_buffer_ops [Insert [5, 0, 0, 0, 0, 0, 0, 0], Insert [1, 2, 3, 4, 5, 0, 0, 0]]
        empty_receive_buffer) = 5 \<and>
   padded_next_message_length
     (run_buffer_ops [Insert [5, 0, 0, 0, 0, 0, 0, 0], Insert [1, 2, 3, 4, 5, 0, 0, 0]]
        empty_receive_buffer) = 8 \<and>
   buflen
     (run_buffer_ops [Insert [5, 0, 0, 0, 0, 0, 0, 0], Insert [1, 2, 3, 4, 5, 0, 0, 0]]
        empty_receive_buffer) = 8 \<and>
   buffer
     (run_buffer_ops [Insert [5, 0, 0, 0, 0, 0, 0, 0], Insert [1, 2, 3, 4, 5, 0, 0, 0]]
        empty_receive_buffer) = [1, 2, 3, 4, 5, 0, 0, 0]"
  using receive_framing_invariant
    [of empty_receive_buffer "[Insert [5, 0, 0, 0, 0, 0, 0, 0], Insert [1, 2, 3, 4, 5, 0, 0, 0]]"]
  by (simp add: run_buffer_ops_def insert_receive_curbuf_def locked_read_header_curbuf_def
      empty_receive_buffer_def header_length_def get_padded_length_def)

text \<open>
  C6, as stated for any history, fails when a header carries a length above
  \<open>2 ^ 64 - 8\<close>: after the insert of eight bytes \<open>0xFF\<close> the pending length is
  \<open>2 ^ 64 - 1\<close> and the padded length has wrapped to 0.
\<close>

theorem framing_iff_fails_on_wrapped_header:
  "next_message_length (run_buffer_ops [Insert (replicate 8 255)] empty_receive_buffer)
     = 18446744073709551615 \<and>
   padded_next_message_length (run_buffer_ops [Insert (replicate 8 255)] empty_receive_buffer)
     = 0"
  by (simp add: run_buffer_ops_def insert_receive_curbuf_def locked_read_header_curbuf_def
      empty_receive_buffer_def header_length_ff get_padded_length_def)

section \<open>A header of length 0\<close>

text \<open>
  C10. When the queue of an idle buffer (pending length 0, at least eight bytes) starts
  with a header whose length field is 0, the header consumption removes the eight
  bytes and leaves both lengths 0; \<open>receive\<close> on that source then returns \<open>None\<close> and
  changes nothing, so no message is ever returned for that frame. On the sending side
  \<open>send\<close> refuses a length of 0.
\<close>

theorem zero_length_header_skipped:
  assumes "idx < length (receive_buffer c)"
      and "curbuf = receive_buffer c ! idx"
      and "next_message_length curbuf = 0"
      and "8 \<le> buflen curbuf"
      and "header_length (take 8 (buffer curbuf)) = 0"
  shows "receive_buffer (locked_read_header_from_buffer idx c) ! idx =
           curbuf\<lparr>buffer := drop 8 (buffer curbuf),
                   next_message_length := 0,
                   padded_next_message_length := 0,
                   buflen := buflen curbuf - 8\<rparr> \<and>
         receive idx (locked_read_header_from_buffer idx c) =
           (None, locked_read_header_from_buffer idx c) \<and>
         (targetmachine < comm_size c \<longrightarrow>
            send world targetmachine data 0 c = Some (Inl Assert_length_positive))"
proof -
  let ?c = "locked_read_header_from_buffer idx c"
  let ?b = "curbuf\<lparr>buffer := drop 8 (buffer curbuf), next_message_length := 0,
                   padded_next_message_length := 0, buflen := buflen curbuf - 8\<rparr>"
  have rd: "locked_read_header_curbuf curbuf = ?b"
    using assms(3,4,5) by (simp add: locked_read_header_curbuf_def get_padded_length_0)
  have nth: "receive_buffer ?c ! idx = ?b"
    using assms(1,2) rd by (simp add: locked_read_header_from_buffer_def)
  have "receive_curbuf ?b = (None, ?b)"
    by (rule receive_curbuf_none) simp
  moreover have "(receive_buffer ?c)[idx := ?b] = receive_buffer ?c"
    by (metis list_update_id nth)
  ultimately have "receive idx ?c = (None, ?c)"
    using nth by (simp add: receive_nth)
  moreover have "targetmachine < comm_size c \<longrightarrow>
      send world targetmachine data 0 c = Some (Inl Assert_length_positive)"
    by (simp add: send_def)
  ultimately show ?thesis using nth by simp
qed

theorem zero_length_header_skipped_witness:
  "receive_buffer (locked_read_header_from_buffer 1 zero_frame_comm) ! 1 =
     \<lparr>buflen = 8, buffer = [3, 0, 0, 0, 0, 0, 0, 0],
      next_message_length = 0, padded_next_message_length = 0\<rparr> \<and>
   receive 1 (locked_read_header_from_buffer 1 zero_frame_comm) =
     (None, locked_read_header_from_buffer 1 zero_frame_comm) \<and>
   send (\<lambda>_. undefined) 1 (\<lambda>_. 0) 0 zero_frame_comm = Some (Inl Assert_length_positive)"
  using zero_length_header_skipped
    [of 1 zero_frame_comm "receive_buffer zero_frame_comm ! 1" 1 "\<lambda>_. undefined" "\<lambda>_. 0"]
  by (simp add: zero_frame_comm_def mpi_comm_init_def header_length_def)

section \<open>The any-source receive\<close>

text \<open>
  C1. In \<open>one_message_comm\<close> the cursor is 0 and only source 1 holds a message. The sweep
  starts at source 1, succeeds at its first step \<open>j = 0\<close>, returns source 1, and stores
  \<open>j\<close>: the cursor is 0 afterwards, not the source 1 the message came from.
\<close>

theorem receive_any_cursor_is_sweep_step:
  "fst (receive_any one_message_comm) = Some ([1, 2, 3, 4, 5, 0, 0, 0], 1, 5) \<and>
   last_receive_buffer_read_from (snd (receive_any one_message_comm)) = 0"
  by (simp add: receive_any_def receive_sweep.simps [of _ 0] one_message_comm_fields
      one_message_comm_buffers receive_def receive_curbuf_def locked_read_header_curbuf_def)

section \<open>Staging and resetting\<close>

lemma sub_size_t_le:
  assumes "b \<le> a" and "a < 2 ^ 64"
  shows "sub_size_t a b = a - b"
proof -
  have e: "a + 2 ^ 64 - b = (a - b) + 2 ^ 64" using assms(1) by simp
  have "sub_size_t a b = ((a - b) + 2 ^ 64) mod 2 ^ 64"
    by (simp only: sub_size_t_def e)
  also have "\<dots> = a - b" using assms(2) by simp
  finally show ?thesis .
qed

lemma add_size_t_less: "a + b < 2 ^ 64 \<Longrightarrow> add_size_t a b = a + b"
  by (simp add: add_size_t_def)

lemma clear_sendlength_eq:
  "length xs = n \<Longrightarrow> i \<le> n \<Longrightarrow> clear_sendlength i n xs = take i xs @ replicate (n - i) 0"
proof (induction i n xs rule: clear_sendlength.induct)
  case (1 i n xs)
  show ?case
  proof (cases "i < n")
    case True
    then have "clear_sendlength i n xs = take (Suc i) (xs[i := 0]) @ replicate (n - Suc i) 0"
      using 1 by (subst clear_sendlength.simps) simp
    also have "take (Suc i) (xs[i := 0]) = take i xs @ [0]"
      using True 1(2) by (simp add: take_Suc_conv_app_nth)
    also have "(take i xs @ [0]) @ replicate (n - Suc i) 0 = take i xs @ replicate (n - i) 0"
    proof -
      from True have "n - i = Suc (n - Suc i)" by simp
      then show ?thesis by simp
    qed
    finally show ?thesis .
  next
    case False
    then show ?thesis using 1(2,3) by (subst clear_sendlength.simps) simp
  qed
qed

lemma clear_sendlength_all: "length xs = n \<Longrightarrow> clear_sendlength 0 n xs = replicate n 0"
  by (simp add: clear_sendlength_eq)

lemma mem_read_length: "length (mem_read m a n) = n"
  by (simp add: mem_read_def)

lemma mem_read_write_same: "mem_read (mem_write m a bs) a (length bs) = bs"
  by (rule nth_equalityI) (simp_all add: mem_read_def mem_write_def)

lemma list_all_update:
  "list_all P xs \<Longrightarrow> P v \<Longrightarrow> list_all P (xs[i := v])"
  using set_update_subset_insert [of xs i v] by (auto simp: list_all_iff)

lemma min_mult8: "(a::nat) mod 8 = 0 \<Longrightarrow> b mod 8 = 0 \<Longrightarrow> min a b mod 8 = 0"
  by (simp add: min_def)

lemma two_peer_comm_fields:
  "comm_size two_peer_comm = 2"
  "max_sendlength_per_machine two_peer_comm = 2048"
  "cur_send_buffer two_peer_comm = 0"
  "sendlength two_peer_comm = (\<lambda>_. [0, 0])"
  "offset two_peer_comm = [0, 2048]"
  "send_base two_peer_comm = (\<lambda>_. fresh_window)"
  "last_garbage_collect_ms two_peer_comm = (\<lambda>_. 0)"
  by (simp_all add: two_peer_comm_def mpi_comm_init_def replicate_2 upt_0_2)

lemma staged_comm_eq:
  "staged_comm =
     two_peer_comm\<lparr>sendlength := (\<lambda>_. [0, 0])(0 := [0, 8]),
                   send_base := (\<lambda>_. fresh_window)
                     (0 := mem_write fresh_window 2048 (mem_read (\<lambda>_. 7) 0 8))\<rparr>"
  by (simp add: staged_comm_def actual_send_def two_peer_comm_fields Let_def
      get_padded_length_def sub_size_t_def add_size_t_def)

lemma staged_comm_fields:
  "comm_size staged_comm = 2"
  "sendlength staged_comm 0 = [0, 8]"
  "last_garbage_collect_ms staged_comm 0 = 0"
  "send_base staged_comm 0 2048 = 7"
  by (simp_all add: staged_comm_eq two_peer_comm_fields mem_write_def mem_read_def)

lemma actual_send_unpadded:
  "get_padded_length len = 0 \<Longrightarrow> actual_send t ptr len c = (0, c)"
  by (simp add: actual_send_def Let_def)

text \<open>
  C4. A call of \<open>actual_send\<close> with \<open>0 < len\<close>, where the round-up of \<open>len\<close> fits a
  \<^verbatim>\<open>size_t\<close> (\<open>len + 7 < 2 ^ 64\<close>), that reads the counter value \<open>old\<close> of
  the target's slot (within the capacity, invariant I1): the grant is
  \<open>min (capacity - old) (ceil (len / 8) * 8)\<close>, the counter goes from \<open>old\<close> to
  \<open>old + grant\<close>, and the call returns \<open>min grant len\<close>. It returns 0 exactly when the slot
  was at capacity, which is when the grant is 0, and then the comm object is unchanged.
  No other counter changes, and the granted bytes of the window hold the caller's bytes.
\<close>

theorem actual_send_grant:
  assumes "targetmachine < length (sendlength c (cur_send_buffer c mod 2))"
      and "0 < len" and "len + 7 < 2 ^ 64"
      and "sendlength c (cur_send_buffer c mod 2) ! targetmachine \<le> max_sendlength_per_machine c"
      and "max_sendlength_per_machine c < 2 ^ 64"
  shows "let idx = cur_send_buffer c mod 2;
             old = sendlength c idx ! targetmachine;
             grant = min (max_sendlength_per_machine c - old) ((len + 7) div 8 * 8);
             r = actual_send targetmachine data len c
         in fst r = min grant len \<and>
            sendlength (snd r) idx ! targetmachine = old + grant \<and>
            (fst r = 0 \<longleftrightarrow> old = max_sendlength_per_machine c) \<and>
            (fst r = 0 \<longleftrightarrow> grant = 0) \<and>
            (grant = 0 \<longrightarrow> snd r = c) \<and>
            (\<forall>i. i \<noteq> targetmachine \<longrightarrow>
               sendlength (snd r) idx ! i = sendlength c idx ! i) \<and>
            (\<forall>g. g \<noteq> idx \<longrightarrow> sendlength (snd r) g = sendlength c g) \<and>
            mem_read (send_base (snd r) idx) (offset c ! targetmachine + old) grant =
              mem_read data 0 grant"
proof -
  define idx where "idx = cur_send_buffer c mod 2"
  define old where "old = sendlength c idx ! targetmachine"
  define cap where "cap = max_sendlength_per_machine c"
  define padded where "padded = (len + 7) div 8 * 8"
  define grant where "grant = min (cap - old) padded"
  have pl: "get_padded_length len = padded"
    unfolding padded_def using assms(3) by (rule get_padded_length_exact)
  have oc: "old \<le> cap" using assms(4) by (simp add: old_def idx_def cap_def)
  have sub: "sub_size_t cap old = cap - old"
    using oc assms(5) unfolding cap_def by (rule sub_size_t_le)
  have "len \<le> padded" unfolding padded_def by presburger
  with assms(2) have pp: "0 < padded" "len \<le> padded" by simp_all
  have gl: "old + grant \<le> cap" using oc by (simp add: grant_def)
  then have "old + grant < 2 ^ 64" using assms(5) unfolding cap_def by linarith
  then have add: "add_size_t old grant = old + grant" by (rule add_size_t_less)
  have mw: "min (sub_size_t cap old) padded = grant" by (simp only: sub grant_def)
  have g0: "grant = 0 \<longleftrightarrow> old = cap" using oc pp by (auto simp: grant_def)
  have len_rd: "length (mem_read data 0 grant) = grant" by (rule mem_read_length)
  show ?thesis
  proof (cases "grant = 0")
    case True
    then have r: "actual_send targetmachine data len c = (0, c)"
      unfolding actual_send_def Let_def idx_def [symmetric] old_def [symmetric]
        cap_def [symmetric] pl mw by simp
    show ?thesis
      unfolding Let_def idx_def [symmetric] old_def [symmetric] cap_def [symmetric]
        padded_def [symmetric] grant_def [symmetric] r
      using True g0 by (simp add: mem_read_def old_def)
  next
    case False
    then have r: "actual_send targetmachine data len c =
       (min grant len,
        c\<lparr>sendlength := (sendlength c)
              (idx := (sendlength c idx)[targetmachine := old + grant]),
          send_base := (send_base c)
              (idx := mem_write (send_base c idx) (offset c ! targetmachine + old)
                        (mem_read data 0 grant))\<rparr>)"
      unfolding actual_send_def Let_def idx_def [symmetric] old_def [symmetric]
        cap_def [symmetric] pl mw add by simp
    have m0: "min grant len \<noteq> 0" using False assms(2) by simp
    have rd: "mem_read (mem_write (send_base c idx) (offset c ! targetmachine + old)
                 (mem_read data 0 grant)) (offset c ! targetmachine + old) grant =
              mem_read data 0 grant"
      using mem_read_write_same [of "send_base c idx" "offset c ! targetmachine + old"
          "mem_read data 0 grant"] len_rd by simp
    show ?thesis
      unfolding Let_def idx_def [symmetric] old_def [symmetric] cap_def [symmetric]
        padded_def [symmetric] grant_def [symmetric] r
      using False g0 m0 rd assms(1) by (simp add: idx_def old_def)
  qed
qed

theorem actual_send_grant_witness:
  "fst (actual_send 1 (\<lambda>_. 7) 5 two_peer_comm) = 5 \<and>
   sendlength (snd (actual_send 1 (\<lambda>_. 7) 5 two_peer_comm)) 0 ! 1 = 8 \<and>
   sendlength (snd (actual_send 1 (\<lambda>_. 7) 5 two_peer_comm)) 0 ! 0 = 0"
  using actual_send_grant [of 1 two_peer_comm 5 "\<lambda>_. 7"]
  by (simp add: two_peer_comm_fields Let_def)

text \<open>
  C4, as stated for every \<open>len > 0\<close>, fails at the top of the \<^verbatim>\<open>size_t\<close> range: for
  \<open>len = 2 ^ 64 - 1\<close> the padded length wraps to 0, so the grant is 0 and the call
  returns 0 with the comm object unchanged, although the slot of the target is empty
  and the capacity is 2048.
\<close>

theorem actual_send_refuses_huge_length:
  "sendlength two_peer_comm (cur_send_buffer two_peer_comm mod 2) ! 1 = 0 \<and>
   max_sendlength_per_machine two_peer_comm = 2048 \<and>
   actual_send 1 (\<lambda>_. 7) 18446744073709551615 two_peer_comm = (0, two_peer_comm)"
  by (simp add: actual_send_unpadded get_padded_length_max two_peer_comm_fields)

text \<open>
  C8. \<open>reset_send_buffer idx\<close> on a group with one counter per peer: every counter of
  the group becomes 0; the window of the group is replaced by a fresh mapping, and the
  group's timestamp becomes the clock reading, exactly when the reading is more than
  10000 ms past the timestamp (in \<^verbatim>\<open>size_t\<close> arithmetic); the counters, window and
  timestamp of the other group, and every other member of the comm object, are as
  before.
\<close>

theorem reset_send_buffer_frame:
  assumes "length (sendlength c idx) = comm_size c"
  shows "sendlength (reset_send_buffer idx curtime c) idx = replicate (comm_size c) 0 \<and>
         send_base (reset_send_buffer idx curtime c) idx =
           (if sub_size_t curtime (last_garbage_collect_ms c idx) > 10000
            then fresh_window else send_base c idx) \<and>
         last_garbage_collect_ms (reset_send_buffer idx curtime c) idx =
           (if sub_size_t curtime (last_garbage_collect_ms c idx) > 10000
            then curtime else last_garbage_collect_ms c idx) \<and>
         (\<forall>g. g \<noteq> idx \<longrightarrow>
            sendlength (reset_send_buffer idx curtime c) g = sendlength c g \<and>
            send_base (reset_send_buffer idx curtime c) g = send_base c g \<and>
            last_garbage_collect_ms (reset_send_buffer idx curtime c) g =
              last_garbage_collect_ms c g) \<and>
         (reset_send_buffer idx curtime c)
           \<lparr>sendlength := sendlength c, send_base := send_base c,
            last_garbage_collect_ms := last_garbage_collect_ms c\<rparr> = c"
proof (cases "sub_size_t curtime (last_garbage_collect_ms c idx) > 10000")
  case True
  then have "reset_send_buffer idx curtime c =
      c\<lparr>sendlength := (sendlength c)(idx := replicate (comm_size c) 0),
        send_base := (send_base c)(idx := fresh_window),
        last_garbage_collect_ms := (last_garbage_collect_ms c)(idx := curtime)\<rparr>"
    using assms
    by (simp add: reset_send_buffer_def garbage_collect_def Let_def clear_sendlength_all)
  then show ?thesis using True by simp
next
  case False
  then have "reset_send_buffer idx curtime c =
      c\<lparr>sendlength := (sendlength c)(idx := replicate (comm_size c) 0)\<rparr>"
    using assms
    by (simp add: reset_send_buffer_def Let_def clear_sendlength_all)
  then show ?thesis using False by simp
qed

theorem reset_send_buffer_frame_witness:
  "sendlength (reset_send_buffer 0 10001 staged_comm) 0 = [0, 0] \<and>
   send_base (reset_send_buffer 0 10001 staged_comm) 0 = fresh_window \<and>
   last_garbage_collect_ms (reset_send_buffer 0 10001 staged_comm) 0 = 10001 \<and>
   sendlength (reset_send_buffer 0 10001 staged_comm) 1 = sendlength staged_comm 1"
  using reset_send_buffer_frame [of staged_comm 0 10001]
  by (simp add: staged_comm_fields sub_size_t_def replicate_2)

text \<open>
  C8, as stated with "at least 10 seconds", fails on the boundary: a reset exactly
  10000 ms after the group's timestamp keeps the window (the staged byte 7 is still at
  offset 2048, where a fresh window holds 0) and keeps the timestamp.
\<close>

theorem reset_at_ten_seconds_keeps_window:
  "sub_size_t 10000 (last_garbage_collect_ms staged_comm 0) = 10000 \<and>
   send_base (reset_send_buffer 0 10000 staged_comm) 0 2048 = 7 \<and>
   fresh_window 2048 = 0 \<and>
   last_garbage_collect_ms (reset_send_buffer 0 10000 staged_comm) 0 = 0"
  by (simp add: reset_send_buffer_def Let_def staged_comm_fields sub_size_t_def
      fresh_window_def)

section \<open>Invariant I1\<close>

lemma lengths_inv_init:
  assumes "send_window < 2 ^ 64"
  shows "lengths_inv (mpi_comm_init rank n send_window t0 t1)"
proof -
  have "send_window div n div 8 * 8 \<le> send_window div n" by simp
  also have "\<dots> \<le> send_window" by (rule div_le_dividend)
  finally have "send_window div n div 8 * 8 < 2 ^ 64" using assms by linarith
  then show ?thesis
    by (simp add: lengths_inv_def mpi_comm_init_def Let_def list_all_iff)
qed

lemma actual_send_fields:
  "comm_size (snd (actual_send t d len c)) = comm_size c"
  "max_sendlength_per_machine (snd (actual_send t d len c)) = max_sendlength_per_machine c"
  "cur_send_buffer (snd (actual_send t d len c)) = cur_send_buffer c"
  "offset (snd (actual_send t d len c)) = offset c"
  "receive_buffer (snd (actual_send t d len c)) = receive_buffer c"
  "num_nodes_flushing_threads_done (snd (actual_send t d len c)) =
     num_nodes_flushing_threads_done c"
  "flushing_thread_done (snd (actual_send t d len c)) = flushing_thread_done c"
  by (simp_all add: actual_send_def Let_def)

lemma actual_send_sendlength:
  "sendlength (snd (actual_send t d len c)) =
     (let idx = cur_send_buffer c mod 2;
          old = sendlength c idx ! t;
          maxwrite = min (sub_size_t (max_sendlength_per_machine c) old) (get_padded_length len)
      in if maxwrite = 0 then sendlength c
         else (sendlength c)(idx := (sendlength c idx)[t := add_size_t old maxwrite]))"
proof -
  define mw where "mw = min (sub_size_t (max_sendlength_per_machine c)
      (sendlength c (cur_send_buffer c mod 2) ! t)) (get_padded_length len)"
  show ?thesis
    unfolding actual_send_def Let_def mw_def [symmetric]
    by (cases "mw = 0") simp_all
qed

lemma lengths_inv_actual_send:
  assumes "lengths_inv c" and "t < comm_size c"
  shows "lengths_inv (snd (actual_send t d len c))"
proof -
  define idx where "idx = cur_send_buffer c mod 2"
  define old where "old = sendlength c idx ! t"
  define cap where "cap = max_sendlength_per_machine c"
  define maxwrite where "maxwrite = min (sub_size_t cap old) (get_padded_length len)"
  have i2: "idx < 2" by (simp add: idx_def)
  have cap: "cap < 2 ^ 64" "cap mod 8 = 0"
    using assms(1) by (simp_all add: lengths_inv_def cap_def)
  have len: "length (sendlength c idx) = comm_size c"
    and all: "list_all (\<lambda>l. l \<le> cap \<and> l mod 8 = 0) (sendlength c idx)"
    using assms(1) i2 by (simp_all add: lengths_inv_def cap_def)
  have "old \<in> set (sendlength c idx)" using assms(2) len by (simp add: old_def)
  with all have old: "old \<le> cap" "old mod 8 = 0" by (simp_all add: list_all_iff)
  have sub: "sub_size_t cap old = cap - old" using old(1) cap(1) by (rule sub_size_t_le)
  have mw: "maxwrite = min (cap - old) (get_padded_length len)"
    by (simp only: maxwrite_def sub)
  have "(cap - old) mod 8 = 0" using old cap(2) by (simp add: mod_eq_0_iff_dvd)
  then have m8: "maxwrite mod 8 = 0"
    unfolding mw using get_padded_length_mod8 by (rule min_mult8)
  have le: "old + maxwrite \<le> cap" using old(1) by (simp add: mw)
  then have "old + maxwrite < 2 ^ 64" using cap(1) by linarith
  then have add: "add_size_t old maxwrite = old + maxwrite" by (rule add_size_t_less)
  have n8: "(old + maxwrite) mod 8 = 0" using old(2) m8 by (simp add: mod_eq_0_iff_dvd)
  have upd: "list_all (\<lambda>l. l \<le> cap \<and> l mod 8 = 0) ((sendlength c idx)[t := old + maxwrite])"
    using all le n8 by (simp add: list_all_update)
  have sl: "sendlength (snd (actual_send t d len c)) =
      (if maxwrite = 0 then sendlength c
       else (sendlength c)(idx := (sendlength c idx)[t := old + maxwrite]))"
    unfolding actual_send_sendlength Let_def idx_def [symmetric] old_def [symmetric]
      cap_def [symmetric] maxwrite_def [symmetric] add ..
  show ?thesis
    using assms(1) upd len
    unfolding lengths_inv_def actual_send_fields sl cap_def [symmetric]
    by simp
qed

lemma reset_send_buffer_fields:
  "comm_size (reset_send_buffer idx now c) = comm_size c"
  "max_sendlength_per_machine (reset_send_buffer idx now c) = max_sendlength_per_machine c"
  "cur_send_buffer (reset_send_buffer idx now c) = cur_send_buffer c"
  "offset (reset_send_buffer idx now c) = offset c"
  "offset_by_datatype (reset_send_buffer idx now c) = offset_by_datatype c"
  "receive_buffer (reset_send_buffer idx now c) = receive_buffer c"
  "num_nodes_flushing_threads_done (reset_send_buffer idx now c) =
     num_nodes_flushing_threads_done c"
  "flushing_thread_done (reset_send_buffer idx now c) = flushing_thread_done c"
  by (simp_all add: reset_send_buffer_def garbage_collect_def Let_def)

lemma reset_send_buffer_sendlength:
  "length (sendlength c idx) = comm_size c \<Longrightarrow>
   sendlength (reset_send_buffer idx now c) = (sendlength c)(idx := replicate (comm_size c) 0)"
  by (simp add: reset_send_buffer_def garbage_collect_def Let_def clear_sendlength_all)

lemma lengths_inv_reset:
  assumes "lengths_inv c" and "idx < 2"
  shows "lengths_inv (reset_send_buffer idx now c)"
proof -
  have "length (sendlength c idx) = comm_size c"
    using assms by (simp add: lengths_inv_def)
  then have "sendlength (reset_send_buffer idx now c) =
      (sendlength c)(idx := replicate (comm_size c) 0)"
    by (rule reset_send_buffer_sendlength)
  then show ?thesis
    using assms(1) unfolding lengths_inv_def reset_send_buffer_fields
    by (simp add: list_all_iff)
qed

lemma lengths_inv_swap: "lengths_inv c \<Longrightarrow> lengths_inv (snd (swap_buffers c))"
  by (simp add: lengths_inv_def swap_buffers_def)

lemma swap_buffers_fields:
  "comm_size (snd (swap_buffers c)) = comm_size c"
  "max_sendlength_per_machine (snd (swap_buffers c)) = max_sendlength_per_machine c"
  by (simp_all add: swap_buffers_def)

lemma run_send_ops_inv:
  "lengths_inv c \<Longrightarrow> list_all (send_op_ok (comm_size c)) ops \<Longrightarrow>
   lengths_inv (run_send_ops ops c) \<and>
   comm_size (run_send_ops ops c) = comm_size c \<and>
   max_sendlength_per_machine (run_send_ops ops c) = max_sendlength_per_machine c"
proof (induction ops arbitrary: c)
  case Nil
  then show ?case by (simp add: run_send_ops_def)
next
  case (Cons op ops)
  have step: "lengths_inv (apply_send_op op c) \<and>
       comm_size (apply_send_op op c) = comm_size c \<and>
       max_sendlength_per_machine (apply_send_op op c) = max_sendlength_per_machine c"
  proof (cases op)
    case (Stage t d len)
    then show ?thesis
      using Cons.prems by (simp add: lengths_inv_actual_send actual_send_fields)
  next
    case (Reset idx now)
    then show ?thesis
      using Cons.prems by (simp add: lengths_inv_reset reset_send_buffer_fields)
  next
    case Swap
    then show ?thesis
      using Cons.prems by (simp add: lengths_inv_swap swap_buffers_fields)
  qed
  then have "lengths_inv (run_send_ops ops (apply_send_op op c)) \<and>
       comm_size (run_send_ops ops (apply_send_op op c)) = comm_size (apply_send_op op c) \<and>
       max_sendlength_per_machine (run_send_ops ops (apply_send_op op c)) =
         max_sendlength_per_machine (apply_send_op op c)"
    using Cons.prems(2) by (intro Cons.IH) simp_all
  with step show ?case by (simp add: run_send_ops_def)
qed

lemma actual_flush_aligned:
  assumes "lengths_inv c" and "g < 2"
  shows "actual_flush g env c \<noteq> Inl Assert_sendlength_aligned"
proof -
  have "length (sendlength c g) = comm_size c"
    and "list_all (\<lambda>l. l mod 8 = 0) (sendlength c g)"
    using assms by (auto simp: lengths_inv_def list_all_iff)
  then have "list_all (\<lambda>i. sendlength c g ! i mod 8 = 0) [0..<comm_size c]"
    by (auto simp: list_all_iff)
  then show ?thesis
    by (simp add: actual_flush_def Let_def)
qed

text \<open>
  C5 (I1). From the constructor's state for \<open>n\<close> peers and a window of \<open>send_window\<close>
  bytes, after any well-formed history of stage reservations, resets and swaps: the
  capacity is \<open>floor (send_window / n / 8) * 8\<close>, every counter of both groups is at most
  the capacity and a multiple of 8, and so the alignment assertion of \<open>actual_flush\<close>
  never fails.
\<close>

theorem send_lengths_invariant:
  assumes "0 < n" and "send_window < 2 ^ 64"
      and "list_all (send_op_ok n) ops"
      and "c = run_send_ops ops (mpi_comm_init rank n send_window t0 t1)"
  shows "max_sendlength_per_machine c = send_window div n div 8 * 8 \<and>
         (\<forall>g < 2. \<forall>i < n.
            sendlength c g ! i \<le> send_window div n div 8 * 8 \<and>
            sendlength c g ! i mod 8 = 0) \<and>
         (\<forall>g < 2. \<forall>env. actual_flush g env c \<noteq> Inl Assert_sendlength_aligned)"
proof -
  let ?c0 = "mpi_comm_init rank n send_window t0 t1"
  have n0: "comm_size ?c0 = n" and m0: "max_sendlength_per_machine ?c0 = send_window div n div 8 * 8"
    by (simp_all add: mpi_comm_init_def Let_def)
  have "lengths_inv ?c0" using assms(2) by (rule lengths_inv_init)
  moreover have "list_all (send_op_ok (comm_size ?c0)) ops" using assms(3) n0 by simp
  ultimately have r: "lengths_inv c" "comm_size c = n"
      "max_sendlength_per_machine c = send_window div n div 8 * 8"
    using run_send_ops_inv [of ?c0 ops] assms(4) n0 m0 by simp_all
  have "sendlength c g ! i \<le> send_window div n div 8 * 8 \<and> sendlength c g ! i mod 8 = 0"
    if "g < 2" "i < n" for g i
  proof -
    have "length (sendlength c g) = n"
      and "list_all (\<lambda>l. l \<le> send_window div n div 8 * 8 \<and> l mod 8 = 0) (sendlength c g)"
      using r that(1) by (auto simp: lengths_inv_def)
    then show ?thesis using that(2) by (simp add: list_all_length)
  qed
  moreover have "actual_flush g env c \<noteq> Inl Assert_sendlength_aligned" if "g < 2" for g env
    using r(1) that by (rule actual_flush_aligned)
  ultimately show ?thesis using r(3) by blast
qed

theorem send_lengths_invariant_witness:
  "list_all (send_op_ok 2) [Stage 1 (\<lambda>_. 7) 5, Swap, Stage 0 (\<lambda>_. 1) 3000] \<and>
   sendlength (run_send_ops [Stage 1 (\<lambda>_. 7) 5, Swap, Stage 0 (\<lambda>_. 1) 3000]
     (mpi_comm_init 0 2 4096 0 0)) 0 = [0, 8] \<and>
   sendlength (run_send_ops [Stage 1 (\<lambda>_. 7) 5, Swap, Stage 0 (\<lambda>_. 1) 3000]
     (mpi_comm_init 0 2 4096 0 0)) 1 = [2048, 0] \<and>
   sendlength (run_send_ops [Stage 1 (\<lambda>_. 7) 5, Swap, Stage 0 (\<lambda>_. 1) 3000]
     (mpi_comm_init 0 2 4096 0 0)) 1 ! 0 \<le> 4096 div 2 div 8 * 8 \<and>
   sendlength (run_send_ops [Stage 1 (\<lambda>_. 7) 5, Swap, Stage 0 (\<lambda>_. 1) 3000]
     (mpi_comm_init 0 2 4096 0 0)) 1 ! 0 mod 8 = 0"
proof -
  let ?ops = "[Stage 1 (\<lambda>_. 7) 5, Swap, Stage 0 (\<lambda>_. 1) 3000]"
  let ?c = "run_send_ops ?ops (mpi_comm_init 0 2 4096 0 0)"
  have ok: "list_all (send_op_ok 2) ?ops" by simp
  have e: "?c = snd (actual_send 0 (\<lambda>_. 1) 3000 (snd (swap_buffers staged_comm)))"
    by (simp add: run_send_ops_def staged_comm_def two_peer_comm_def)
  have s: "sendlength ?c = (\<lambda>_. [0, 0])(0 := [0, 8], 1 := [2048, 0])"
    unfolding e
    by (simp add: actual_send_sendlength swap_buffers_def staged_comm_eq two_peer_comm_fields
        add_size_t_def sub_size_t_def get_padded_length_def Let_def)
  have "(0::nat) < 2" and "(4096::nat) < 2 ^ 64" by simp_all
  from send_lengths_invariant [OF this ok refl, of 0 0 0]
  have "sendlength ?c 1 ! 0 \<le> 4096 div 2 div 8 * 8 \<and> sendlength ?c 1 ! 0 mod 8 = 0"
    by simp
  then show ?thesis using ok s by simp
qed

section \<open>Flushing\<close>

lemma int_of_size_t_small:
  assumes "n < 2 ^ 31"
  shows "int_of_size_t n = int n"
proof -
  have "int_of_size_t n = sint (word_of_int (int n) :: 32 word)"
    by (simp add: int_of_size_t_def)
  also have "\<dots> = signed_take_bit 31 (int n)"
    by (simp only: sint_sbintrunc') simp
  also have "\<dots> = int n"
    using assms by (intro signed_take_bit_int_eq_self) simp_all
  finally show ?thesis .
qed

lemma sender_inv_init:
  assumes "0 < n" and "send_window < 2 ^ 64"
  shows "sender_inv (mpi_comm_init rank n send_window t0 t1)"
proof -
  have "lengths_inv (mpi_comm_init rank n send_window t0 t1)"
    using assms(2) by (rule lengths_inv_init)
  then show ?thesis
    using assms(1) by (simp add: sender_inv_def mpi_comm_init_def Let_def)
qed

lemma capacity_eq:
  assumes "sender_inv c" and "sender_inv c'"
      and "comm_size c' = comm_size c" and "send_window_size c' = send_window_size c"
  shows "max_sendlength_per_machine c' = max_sendlength_per_machine c"
  using assms by (simp add: sender_inv_def)

lemma capacity_at_least_8:
  assumes "sender_inv c" and "comm_size c * 8 \<le> send_window_size c"
  shows "8 \<le> max_sendlength_per_machine c"
proof -
  have n: "0 < comm_size c"
    and m: "max_sendlength_per_machine c = send_window_size c div comm_size c div 8 * 8"
    using assms(1) by (simp_all add: sender_inv_def)
  have "8 \<le> send_window_size c div comm_size c"
    using assms(2) n by (simp add: less_eq_div_iff_mult_less_eq mult.commute)
  then have "1 \<le> send_window_size c div comm_size c div 8"
    by (simp add: less_eq_div_iff_mult_less_eq)
  then show ?thesis unfolding m by simp
qed

lemma scatter_frame:
  "(fold (\<lambda>i c. if recv i \<noteq> [] then insert_receive_buffer i (recv i) c else c) xs c)
     \<lparr>receive_buffer := rb\<rparr> = c\<lparr>receive_buffer := rb\<rparr>"
  by (induction xs arbitrary: c) (simp_all add: insert_receive_buffer_def)

lemma scatter_eq:
  "fold (\<lambda>i c. if recv i \<noteq> [] then insert_receive_buffer i (recv i) c else c) xs c =
   c\<lparr>receive_buffer :=
       receive_buffer
         (fold (\<lambda>i c. if recv i \<noteq> [] then insert_receive_buffer i (recv i) c else c) xs c)\<rparr>"
  (is "?f = _")
proof -
  have "?f = ?f\<lparr>receive_buffer := receive_buffer ?f\<rparr>" by simp
  also have "\<dots> = c\<lparr>receive_buffer := receive_buffer ?f\<rparr>" by (rule scatter_frame)
  finally show ?thesis .
qed

lemma add_size_t_parity: "add_size_t a 1 mod 2 = (a + 1) mod 2"
proof -
  have "(2::nat) dvd 2 ^ 64" by simp
  then show ?thesis unfolding add_size_t_def by (rule mod_mod_cancel)
qed

lemma lengths_inv_cong:
  "comm_size c' = comm_size c \<Longrightarrow>
   max_sendlength_per_machine c' = max_sendlength_per_machine c \<Longrightarrow>
   sendlength c' = sendlength c \<Longrightarrow> lengths_inv c' = lengths_inv c"
  by (simp add: lengths_inv_def)

lemma aligned_counters:
  assumes "lengths_inv c" and "g < 2"
  shows "list_all (\<lambda>i. sendlength c g ! i mod 8 = 0) [0..<comm_size c]"
proof -
  have "length (sendlength c g) = comm_size c"
    and "list_all (\<lambda>l. l mod 8 = 0) (sendlength c g)"
    using assms by (auto simp: lengths_inv_def list_all_iff)
  then show ?thesis by (auto simp: list_all_iff)
qed

lemma actual_flush_result:
  assumes "lengths_inv c" and "g < 2" and "alltoall_ok env" and "alltoallv_ok env"
  shows "\<exists>rb. actual_flush g env c =
     Inr (map (\<lambda>i. alltoallv_block (send_base c g) (offset_by_datatype c ! i)
                    (int_of_size_t (sendlength c g ! i div 8))) [0..<comm_size c],
          reset_send_buffer g (timer_now env) (c\<lparr>receive_buffer := rb\<rparr>))"
proof -
  let ?f = "fold (\<lambda>i c. if recv_from env i \<noteq> []
                     then insert_receive_buffer i (recv_from env i) c else c)
              [0..<comm_size c] c"
  have al: "list_all (\<lambda>i. sendlength c g ! i mod 8 = 0) [0..<comm_size c]"
    using assms(1,2) by (rule aligned_counters)
  have "actual_flush g env c =
     Inr (map (\<lambda>i. alltoallv_block (send_base c g) (offset_by_datatype c ! i)
                    (map (\<lambda>i. int_of_size_t (sendlength c g ! i div 8)) [0..<comm_size c] ! i))
            [0..<comm_size c],
          reset_send_buffer g (timer_now env) ?f)"
    using al assms(3,4) by (simp add: actual_flush_def Let_def)
  also have "map (\<lambda>i. alltoallv_block (send_base c g) (offset_by_datatype c ! i)
                    (map (\<lambda>i. int_of_size_t (sendlength c g ! i div 8)) [0..<comm_size c] ! i))
            [0..<comm_size c] =
        map (\<lambda>i. alltoallv_block (send_base c g) (offset_by_datatype c ! i)
                    (int_of_size_t (sendlength c g ! i div 8))) [0..<comm_size c]"
    by (rule map_cong) simp_all
  also have "?f = c\<lparr>receive_buffer := receive_buffer ?f\<rparr>" by (rule scatter_eq)
  finally show ?thesis by blast
qed

text \<open>
  The block of a peer is its staged run when the element offset of its slot and the
  element count of a full slot fit an \<^verbatim>\<open>int\<close>: the slot starts below \<open>2 ^ 34\<close> bytes
  and the capacity is below \<open>2 ^ 34\<close> bytes.
\<close>

lemma block_staged:
  assumes "sender_inv c" and "t < comm_size c"
      and "t * max_sendlength_per_machine c < 2 ^ 34"
      and "max_sendlength_per_machine c < 2 ^ 34"
  shows "alltoallv_block (send_base c (cur_send_buffer c mod 2)) (offset_by_datatype c ! t)
           (int_of_size_t (sendlength c (cur_send_buffer c mod 2) ! t div 8)) =
         Some (staged t c)"
proof -
  define g where "g = cur_send_buffer c mod 2"
  define cap where "cap = max_sendlength_per_machine c"
  define l where "l = sendlength c g ! t"
  have g2: "g < 2" by (simp add: g_def)
  have inv: "lengths_inv c"
    and off: "offset c ! t = t * cap"
    and obd: "offset_by_datatype c ! t = int_of_size_t (offset c ! t div 8)"
    using assms(1,2) by (simp_all add: sender_inv_def cap_def)
  have c8: "cap mod 8 = 0"
    and len_g: "length (sendlength c g) = comm_size c"
    and all_g: "list_all (\<lambda>l. l \<le> cap \<and> l mod 8 = 0) (sendlength c g)"
    using inv g2 by (simp_all add: lengths_inv_def cap_def)
  have "l \<in> set (sendlength c g)" using assms(2) len_g by (simp add: l_def)
  with all_g have l: "l \<le> cap" "l mod 8 = 0" by (simp_all add: list_all_iff)
  have l8: "l div 8 * 8 = l" using l(2) by (simp add: mod_eq_0_iff_dvd)
  have "l div 8 \<le> cap div 8" using l(1) by (rule div_le_mono)
  also have "cap div 8 < 2 ^ 31" using assms(4) by (simp add: cap_def)
  finally have cnt: "int_of_size_t (l div 8) = int (l div 8)" by (rule int_of_size_t_small)
  have "8 dvd cap" using c8 by (simp add: mod_eq_0_iff_dvd)
  then have "8 dvd t * cap" by simp
  then have o8: "t * cap div 8 * 8 = t * cap" by simp
  have "t * cap div 8 < 2 ^ 31" using assms(3) by (simp add: cap_def)
  then have dsp: "int_of_size_t (t * cap div 8) = int (t * cap div 8)"
    by (rule int_of_size_t_small)
  have "alltoallv_block (send_base c g) (int (t * cap div 8)) (int (l div 8)) =
      Some (mem_read (send_base c g) (t * cap) l)"
  proof (cases "l div 8 = 0")
    case True
    then have "l = 0" using l8 by simp
    then show ?thesis by (simp add: alltoallv_block_def mem_read_def)
  next
    case False
    then show ?thesis by (simp add: alltoallv_block_def o8 l8)
  qed
  then show ?thesis
    unfolding g_def [symmetric] l_def [symmetric] obd off cnt dsp
    by (simp add: staged_def g_def [symmetric] l_def off)
qed

lemma flush_result:
  assumes "sender_inv c"
      and "alltoall_ok env" and "alltoallv_ok env" and "others_done env < comm_size c"
  shows "\<exists>runs c'. flush env c = Inr ([runs], c') \<and>
           (\<forall>t < comm_size c. runs ! t =
              alltoallv_block (send_base c (cur_send_buffer c mod 2)) (offset_by_datatype c ! t)
                (int_of_size_t (sendlength c (cur_send_buffer c mod 2) ! t div 8))) \<and>
           sender_inv c' \<and>
           sendlength c' (cur_send_buffer c' mod 2) = replicate (comm_size c) 0 \<and>
           comm_size c' = comm_size c \<and>
           send_window_size c' = send_window_size c"
proof -
  define g where "g = cur_send_buffer c mod 2"
  define c1 where "c1 = c\<lparr>cur_send_buffer := add_size_t (cur_send_buffer c) 1\<rparr>"
  have g2: "g < 2" by (simp add: g_def)
  have inv: "lengths_inv c" and n0: "0 < comm_size c"
    and idle: "sendlength c ((cur_send_buffer c + 1) mod 2) = replicate (comm_size c) 0"
    and off: "\<forall>i < comm_size c.
        offset c ! i = i * max_sendlength_per_machine c \<and>
        offset_by_datatype c ! i = int_of_size_t (offset c ! i div 8)"
    and live: "num_nodes_flushing_threads_done c < comm_size c" "\<not> flushing_thread_done c"
    and cap: "max_sendlength_per_machine c = send_window_size c div comm_size c div 8 * 8"
    using assms(1) by (simp_all add: sender_inv_def)
  have inv1: "lengths_inv c1" using inv by (simp add: lengths_inv_def c1_def)
  obtain rb where af: "actual_flush g env c1 =
     Inr (map (\<lambda>i. alltoallv_block (send_base c1 g) (offset_by_datatype c1 ! i)
                    (int_of_size_t (sendlength c1 g ! i div 8))) [0..<comm_size c1],
          reset_send_buffer g (timer_now env) (c1\<lparr>receive_buffer := rb\<rparr>))"
    using actual_flush_result [OF inv1 g2 assms(2,3)] by blast
  define runs where "runs = map (\<lambda>i. alltoallv_block (send_base c g) (offset_by_datatype c ! i)
                    (int_of_size_t (sendlength c g ! i div 8))) [0..<comm_size c]"
  define c2 where "c2 = reset_send_buffer g (timer_now env) (c1\<lparr>receive_buffer := rb\<rparr>)"
  define c' where "c' = c2\<lparr>num_nodes_flushing_threads_done :=
                          (if flushing_thread_done c2 then 1 else 0) + others_done env\<rparr>"
  have fl: "flush env c = Inr ([runs], c')"
    using live(1) af
    by (simp add: flush_def background_flush_inner_op_def swap_buffers_def
        g_def [symmetric] c1_def [symmetric] runs_def c1_def c2_def c'_def)
  have len_g: "length (sendlength c g) = comm_size c"
    using inv g2 by (simp_all add: lengths_inv_def)
  have runs_t: "runs ! t =
      alltoallv_block (send_base c (cur_send_buffer c mod 2)) (offset_by_datatype c ! t)
        (int_of_size_t (sendlength c (cur_send_buffer c mod 2) ! t div 8))"
    if "t < comm_size c" for t
    using that by (simp add: runs_def g_def)
  have sl2: "sendlength c2 = (sendlength c)(g := replicate (comm_size c) 0)"
    unfolding c2_def using reset_send_buffer_sendlength
      [of "c1\<lparr>receive_buffer := rb\<rparr>" g "timer_now env"] len_g
    by (simp add: c1_def)
  have f2: "comm_size c2 = comm_size c"
      "max_sendlength_per_machine c2 = max_sendlength_per_machine c"
      "cur_send_buffer c2 = add_size_t (cur_send_buffer c) 1"
      "offset c2 = offset c" "offset_by_datatype c2 = offset_by_datatype c"
      "flushing_thread_done c2 = flushing_thread_done c"
      "send_window_size c2 = send_window_size c"
    unfolding c2_def by (simp_all add: reset_send_buffer_fields c1_def
        reset_send_buffer_def garbage_collect_def Let_def)
  have "cur_send_buffer c' = add_size_t (cur_send_buffer c) 1"
    by (simp add: c'_def f2)
  then have cur': "cur_send_buffer c' mod 2 = (cur_send_buffer c + 1) mod 2"
    by (simp only: add_size_t_parity)
  have ne: "(cur_send_buffer c + 1) mod 2 \<noteq> g" unfolding g_def by presburger
  have nxt: "(cur_send_buffer c' + 1) mod 2 = g"
  proof -
    have "(cur_send_buffer c' + 1) mod 2 = (cur_send_buffer c' mod 2 + 1) mod 2"
      by presburger
    also have "\<dots> = ((cur_send_buffer c + 1) mod 2 + 1) mod 2" by (simp only: cur')
    also have "\<dots> = g" unfolding g_def by presburger
    finally show ?thesis .
  qed
  have li: "lengths_inv c2"
  proof -
    have "lengths_inv (c1\<lparr>receive_buffer := rb\<rparr>)"
      using inv by (simp add: lengths_inv_def c1_def)
    then show ?thesis unfolding c2_def using g2 by (rule lengths_inv_reset)
  qed
  have li': "lengths_inv c'"
    using li by (simp add: lengths_inv_def c'_def)
  have cur_zero: "sendlength c' (cur_send_buffer c' mod 2) = replicate (comm_size c) 0"
    unfolding cur' using ne idle by (simp add: c'_def sl2)
  have idle': "sendlength c' ((cur_send_buffer c' + 1) mod 2) = replicate (comm_size c') 0"
    unfolding nxt by (simp add: c'_def sl2 f2)
  have "sender_inv c'"
    unfolding sender_inv_def
    using li' idle' n0 cap off assms(4) live(2)
    by (simp add: c'_def f2)
  moreover have "comm_size c' = comm_size c" "send_window_size c' = send_window_size c"
    by (simp_all add: c'_def f2)
  ultimately show ?thesis using fl runs_t cur_zero by blast
qed

section \<open>The send loops\<close>

lemma mem_read_append: "mem_read m a (k + n) = mem_read m a k @ mem_read m (a + k) n"
proof -
  have "[a..<a + (k + n)] = [a..<a + k] @ [a + k..<a + k + n]"
    by (metis add.assoc le_add1 upt_add_eq_append)
  then show ?thesis by (simp add: mem_read_def)
qed

lemma mem_read_write_before:
  "mem_read (mem_write m (a + k) bs) a k = mem_read m a k"
  by (simp add: mem_read_def mem_write_def)

lemma mem_read_write_extend:
  "mem_read (mem_write m (a + k) bs) a (k + length bs) = mem_read m a k @ bs"
  by (simp only: mem_read_append mem_read_write_before mem_read_write_same)

lemma mem_read_shift: "mem_read (\<lambda>i. p (i + k)) 0 n = mem_read p k n"
  by (rule nth_equalityI) (simp_all add: mem_read_def add.commute)

lemma actual_send_eq:
  assumes "lengths_inv c" and "t < comm_size c" and "len + 7 < 2 ^ 64"
      and "g = cur_send_buffer c mod 2"
      and "old = sendlength c g ! t"
      and "grant = min (max_sendlength_per_machine c - old) ((len + 7) div 8 * 8)"
  shows "actual_send t d len c =
           (min grant len,
            if grant = 0 then c
            else c\<lparr>sendlength := (sendlength c)(g := (sendlength c g)[t := old + grant]),
                   send_base := (send_base c)
                     (g := mem_write (send_base c g) (offset c ! t + old)
                             (mem_read d 0 grant))\<rparr>)"
    and "old + grant \<le> max_sendlength_per_machine c"
    and "grant mod 8 = 0"
    and "old \<le> max_sendlength_per_machine c"
proof -
  define cap where "cap = max_sendlength_per_machine c"
  have g2: "g < 2" by (simp add: assms(4))
  have cap: "cap < 2 ^ 64" "cap mod 8 = 0"
    using assms(1) by (simp_all add: lengths_inv_def cap_def)
  have len: "length (sendlength c g) = comm_size c"
    and all: "list_all (\<lambda>l. l \<le> cap \<and> l mod 8 = 0) (sendlength c g)"
    using assms(1) g2 by (simp_all add: lengths_inv_def cap_def)
  have "old \<in> set (sendlength c g)" using assms(2) len by (simp add: assms(5))
  with all have old: "old \<le> cap" "old mod 8 = 0" by (simp_all add: list_all_iff)
  have pl: "get_padded_length len = (len + 7) div 8 * 8"
    using assms(3) by (rule get_padded_length_exact)
  have sub: "sub_size_t cap old = cap - old" using old(1) cap(1) by (rule sub_size_t_le)
  have mw: "min (sub_size_t cap old) (get_padded_length len) = grant"
    apply (simp only: sub pl)
    apply (simp only: assms(6) cap_def)
    done
  have le: "old + grant \<le> cap" using old(1) by (simp add: assms(6) cap_def)
  then have "old + grant < 2 ^ 64" using cap(1) by linarith
  then have add: "add_size_t old grant = old + grant" by (rule add_size_t_less)
  have "(cap - old) mod 8 = 0" using old cap(2) by (simp add: mod_eq_0_iff_dvd)
  moreover have "(len + 7) div 8 * 8 mod 8 = 0" by simp
  ultimately show "grant mod 8 = 0" unfolding assms(6) cap_def [symmetric] by (rule min_mult8)
  show "old + grant \<le> max_sendlength_per_machine c" using le by (simp add: cap_def)
  show "old \<le> max_sendlength_per_machine c" using old(1) by (simp add: cap_def)
  show "actual_send t d len c =
           (min grant len,
            if grant = 0 then c
            else c\<lparr>sendlength := (sendlength c)(g := (sendlength c g)[t := old + grant]),
                   send_base := (send_base c)
                     (g := mem_write (send_base c g) (offset c ! t + old)
                             (mem_read d 0 grant))\<rparr>)"
    unfolding actual_send_def Let_def assms(4) [symmetric] assms(5) [symmetric]
      cap_def [symmetric] mw add
    by (cases "grant = 0") simp_all
qed

lemma actual_send_step:
  assumes "sender_inv c" and "t < comm_size c" and "len + 7 < 2 ^ 64"
      and "grant = min (max_sendlength_per_machine c
                         - sendlength c (cur_send_buffer c mod 2) ! t)
                       ((len + 7) div 8 * 8)"
  shows "\<exists>c1. actual_send t d len c = (min grant len, c1) \<and>
           sender_inv c1 \<and>
           staged t c1 = staged t c @ mem_read d 0 grant \<and>
           comm_size c1 = comm_size c \<and>
           send_window_size c1 = send_window_size c \<and>
           (grant = 0 \<longrightarrow> c1 = c)"
proof -
  define g where "g = cur_send_buffer c mod 2"
  define old where "old = sendlength c g ! t"
  have inv: "lengths_inv c" using assms(1) by (simp add: sender_inv_def)
  have gr: "grant = min (max_sendlength_per_machine c - old) ((len + 7) div 8 * 8)"
    using assms(4) by (simp add: old_def g_def)
  note eq = actual_send_eq [OF inv assms(2,3) g_def old_def gr]
  define c1 where "c1 = snd (actual_send t d len c)"
  have r: "actual_send t d len c = (min grant len, c1)"
    unfolding c1_def by (simp add: eq(1))
  have li: "lengths_inv c1"
    unfolding c1_def using inv assms(2) by (rule lengths_inv_actual_send)
  have len: "length (sendlength c g) = comm_size c"
    using inv by (simp add: lengths_inv_def g_def)
  show ?thesis
  proof (cases "grant = 0")
    case True
    then have "c1 = c" unfolding c1_def by (simp add: eq(1))
    then show ?thesis using r True assms(1) by (simp add: mem_read_def)
  next
    case False
    then have c1: "c1 = c\<lparr>sendlength := (sendlength c)(g := (sendlength c g)[t := old + grant]),
                   send_base := (send_base c)
                     (g := mem_write (send_base c g) (offset c ! t + old)
                             (mem_read d 0 grant))\<rparr>"
      unfolding c1_def by (simp add: eq(1))
    have ne: "(cur_send_buffer c + 1) mod 2 \<noteq> g" unfolding g_def by presburger
    have si: "sender_inv c1"
      using assms(1) li ne unfolding sender_inv_def by (simp add: c1)
    have "staged t c1 =
        mem_read (mem_write (send_base c g) (offset c ! t + old) (mem_read d 0 grant))
          (offset c ! t) (old + length (mem_read d 0 grant))"
      using assms(2) len by (simp add: staged_def c1 g_def [symmetric] mem_read_length)
    also have "\<dots> = mem_read (send_base c g) (offset c ! t) old @ mem_read d 0 grant"
      by (rule mem_read_write_extend)
    also have "mem_read (send_base c g) (offset c ! t) old = staged t c"
      by (simp add: staged_def g_def old_def)
    finally have st: "staged t c1 = staged t c @ mem_read d 0 grant" .
    show ?thesis using r si st False by (simp add: c1)
  qed
qed

lemma world_ok_shift: "world_ok n world \<Longrightarrow> world_ok n (\<lambda>k. world (Suc k))"
  by (simp add: world_ok_def)

lemma staged_drained:
  assumes "sendlength c (cur_send_buffer c mod 2) = replicate n 0" and "t < n"
  shows "staged t c = []"
  using assms by (simp add: staged_def mem_read_def)

lemma padded_rest:
  assumes "grant mod 8 = 0" and "grant \<le> remaining" and "remaining + 7 < 2 ^ 64"
  shows "get_padded_length (remaining - grant) = get_padded_length remaining - grant"
proof -
  from assms(1) have "8 dvd grant" by (simp add: dvd_eq_mod_eq_0)
  then obtain k where k: "grant = k * 8" by (auto simp: dvd_def mult.commute)
  have "remaining - grant + 7 < 2 ^ 64" using assms(3) by linarith
  then have a: "get_padded_length (remaining - grant) = (remaining - grant + 7) div 8 * 8"
    by (rule get_padded_length_exact)
  have b: "get_padded_length remaining = (remaining + 7) div 8 * 8"
    using assms(3) by (rule get_padded_length_exact)
  have "remaining + 7 = (remaining - grant + 7) + k * 8" using assms(2) k by simp
  then have "(remaining + 7) div 8 = (remaining - grant + 7) div 8 + k"
    by simp
  then have "(remaining + 7) div 8 * 8 - grant = (remaining - grant + 7) div 8 * 8"
    by (simp add: k add_mult_distrib)
  then show ?thesis by (simp only: a b)
qed

lemma padded_reached:
  assumes "grant mod 8 = 0" and "remaining \<le> grant" and "grant \<le> (remaining + 7) div 8 * 8"
  shows "grant = (remaining + 7) div 8 * (8::nat)"
proof -
  from assms(1) have "8 dvd grant" by (simp add: dvd_eq_mod_eq_0)
  then obtain k where k: "grant = k * 8" by (auto simp: dvd_def mult.commute)
  have "(remaining + 7) div 8 \<le> (grant + 7) div 8"
    using assms(2) by (intro div_le_mono) simp
  also have "(grant + 7) div 8 = k" by (simp add: k)
  finally have "(remaining + 7) div 8 * 8 \<le> grant" by (simp add: k)
  with assms(3) show ?thesis by simp
qed

lemma send_loop_stages:
  assumes "sender_inv c" and "comm_size c * 8 \<le> send_window_size c"
      and "t < comm_size c" and "remaining + 7 < 2 ^ 64"
      and "world_ok (comm_size c) world"
  shows "\<exists>new world' c'.
           send_loop world log t ptr remaining c = Some (Inr (log @ new, world', c')) \<and>
           sender_inv c' \<and> comm_size c' = comm_size c \<and>
           send_window_size c' = send_window_size c \<and>
           world_ok (comm_size c) world' \<and>
           (t * max_sendlength_per_machine c < 2 ^ 34 \<and>
            max_sendlength_per_machine c < 2 ^ 34 \<longrightarrow>
              (\<exists>rs. shipped t new = map Some rs \<and>
                 concat rs @ staged t c' =
                   staged t c @ mem_read ptr 0 (get_padded_length remaining)))"
  using assms
proof (induction "2 * remaining +
      (if sendlength c (cur_send_buffer c mod 2) ! t = max_sendlength_per_machine c
       then 1 else 0 :: nat)"
    arbitrary: world log ptr remaining c rule: less_induct)
  case less
  note inv = less.prems(1) and win = less.prems(2) and tn = less.prems(3)
    and bound = less.prems(4) and wok = less.prems(5)
  show ?case
  proof (cases "remaining = 0")
    case True
    have "send_loop world log t ptr remaining c = Some (Inr (log @ [], world, c))"
      using True by (subst send_loop.simps) simp
    moreover have "shipped t [] = map Some [] \<and>
        concat [] @ staged t c = staged t c @ mem_read ptr 0 (get_padded_length remaining)"
      using True by (simp add: shipped_def get_padded_length_0 mem_read_def)
    ultimately show ?thesis using inv wok by blast
  next
    case False
    define old where "old = sendlength c (cur_send_buffer c mod 2) ! t"
    define cap where "cap = max_sendlength_per_machine c"
    define padded where "padded = (remaining + 7) div 8 * 8"
    define grant where "grant = min (cap - old) padded"
    have gr: "grant = min (max_sendlength_per_machine c
                         - sendlength c (cur_send_buffer c mod 2) ! t)
                       ((remaining + 7) div 8 * 8)"
      by (simp add: grant_def cap_def old_def padded_def)
    have li: "lengths_inv c" using inv by (simp add: sender_inv_def)
    note eq = actual_send_eq [OF li tn bound refl refl gr]
    have g8: "grant mod 8 = 0" by (rule eq(3))
    have oc: "old \<le> cap" using eq(4) by (simp add: old_def cap_def)
    have gp: "grant \<le> padded" by (simp add: grant_def)
    have pl: "get_padded_length remaining = padded"
      unfolding padded_def using bound by (rule get_padded_length_exact)
    have ppos: "0 < padded" using False unfolding padded_def by presburger
    obtain c1 where as: "actual_send t ptr remaining c = (min grant remaining, c1)"
      and inv1: "sender_inv c1"
      and st1: "staged t c1 = staged t c @ mem_read ptr 0 grant"
      and n1: "comm_size c1 = comm_size c"
      and w1: "send_window_size c1 = send_window_size c"
      using actual_send_step [OF inv tn bound gr] by blast
    have cap1: "max_sendlength_per_machine c1 = cap"
      unfolding cap_def using inv inv1 n1 w1 by (rule capacity_eq)
    show ?thesis
    proof (cases "remaining - min grant remaining > 0")
      case rest: True
      then have lt: "grant < remaining" by (simp add: min_def split: if_splits)
      then have sent: "min grant remaining = grant" by simp
      have e0: "alltoall_ok (world 0)" "alltoallv_ok (world 0)"
        "others_done (world 0) < comm_size c1"
        using wok by (simp_all add: world_ok_def n1)
      obtain runs c2 where fl: "flush (world 0) c1 = Inr ([runs], c2)"
        and rt: "\<forall>t < comm_size c1. runs ! t =
              alltoallv_block (send_base c1 (cur_send_buffer c1 mod 2))
                (offset_by_datatype c1 ! t)
                (int_of_size_t (sendlength c1 (cur_send_buffer c1 mod 2) ! t div 8))"
        and inv2: "sender_inv c2"
        and z2: "sendlength c2 (cur_send_buffer c2 mod 2) = replicate (comm_size c1) 0"
        and n2: "comm_size c2 = comm_size c1"
        and w2: "send_window_size c2 = send_window_size c1"
        using flush_result [OF inv1 e0] by blast
      have cap2e: "max_sendlength_per_machine c2 = cap"
        unfolding cap1 [symmetric] using inv1 inv2 n2 w2 by (rule capacity_eq)
      have win2: "comm_size c2 * 8 \<le> send_window_size c2" using win by (simp add: n1 n2 w1 w2)
      have cap2: "8 \<le> max_sendlength_per_machine c2"
        using inv2 win2 by (rule capacity_at_least_8)
      have slot2: "sendlength c2 (cur_send_buffer c2 mod 2) ! t = 0"
        using z2 tn by (simp add: n1)
      have st2: "staged t c2 = []"
        using z2 tn by (intro staged_drained [where n = "comm_size c1"]) (simp_all add: n1)
      have meas: "2 * (remaining - grant) +
          (if sendlength c2 (cur_send_buffer c2 mod 2) ! t = max_sendlength_per_machine c2
           then 1 else 0) <
          2 * remaining +
          (if sendlength c (cur_send_buffer c mod 2) ! t = max_sendlength_per_machine c
           then 1 else 0)"
      proof (cases "grant = 0")
        case True
        then have "cap - old = 0" using ppos by (simp add: grant_def min_def split: if_splits)
        then have "old = cap" using oc by simp
        then show ?thesis using True slot2 cap2 by (simp add: old_def cap_def)
      next
        case False
        then show ?thesis using slot2 cap2 lt by simp
      qed
      have b2: "remaining - grant + 7 < 2 ^ 64" using bound by linarith
      have t2: "t < comm_size c2" using tn by (simp add: n1 n2)
      have wok2: "world_ok (comm_size c2) (\<lambda>k. world (Suc k))"
        using wok by (simp add: n1 n2 world_ok_shift)
      obtain new world' c' where
        ih: "send_loop (\<lambda>k. world (Suc k)) (log @ [runs]) t (\<lambda>i. ptr (i + grant))
               (remaining - grant) c2 = Some (Inr ((log @ [runs]) @ new, world', c'))"
        and inv': "sender_inv c'" and n': "comm_size c' = comm_size c2"
        and w': "send_window_size c' = send_window_size c2"
        and wok': "world_ok (comm_size c2) world'"
        and rel: "t * max_sendlength_per_machine c2 < 2 ^ 34 \<and>
            max_sendlength_per_machine c2 < 2 ^ 34 \<longrightarrow>
              (\<exists>rs. shipped t new = map Some rs \<and>
                 concat rs @ staged t c' =
                   staged t c2 @ mem_read (\<lambda>i. ptr (i + grant)) 0
                     (get_padded_length (remaining - grant)))"
        using less.hyps [OF meas inv2 win2 t2 b2 wok2] by blast
      have run: "send_loop world log t ptr remaining c =
           Some (Inr (log @ (runs # new), world', c'))"
        using False rest as fl ih sent by (subst send_loop.simps) simp
      have "get_padded_length (remaining - grant) = padded - grant"
        using padded_rest [OF g8 _ bound] lt pl by simp
      then have "mem_read ptr 0 grant @
            mem_read (\<lambda>i. ptr (i + grant)) 0 (get_padded_length (remaining - grant)) =
          mem_read ptr 0 (grant + (padded - grant))"
        by (simp add: mem_read_shift mem_read_append)
      also have "grant + (padded - grant) = padded" using gp by simp
      finally have joined: "mem_read ptr 0 grant @
            mem_read (\<lambda>i. ptr (i + grant)) 0 (get_padded_length (remaining - grant)) =
          mem_read ptr 0 padded" .
      have shipped_rel: "\<exists>rs. shipped t (runs # new) = map Some rs \<and>
          concat rs @ staged t c' = staged t c @ mem_read ptr 0 (get_padded_length remaining)"
        if fits: "t * cap < 2 ^ 34" "cap < 2 ^ 34"
      proof -
        obtain rs where rs: "shipped t new = map Some rs"
          and rel': "concat rs @ staged t c' =
                   staged t c2 @ mem_read (\<lambda>i. ptr (i + grant)) 0
                     (get_padded_length (remaining - grant))"
          using rel fits by (auto simp: cap2e)
        have t1: "t < comm_size c1" using tn by (simp add: n1)
        have "runs ! t = Some (staged t c1)"
          using rt t1 block_staged [OF inv1 t1] fits by (simp add: cap1)
        then have a: "shipped t (runs # new) = map Some (staged t c1 # rs)"
          using rs by (simp add: shipped_def)
        have "concat (staged t c1 # rs) @ staged t c' =
            staged t c1 @ concat rs @ staged t c'"
          by simp
        also have "\<dots> = staged t c @ mem_read ptr 0 grant @
            mem_read (\<lambda>i. ptr (i + grant)) 0 (get_padded_length (remaining - grant))"
          by (simp add: rel' st1 st2)
        also have "\<dots> = staged t c @ mem_read ptr 0 (get_padded_length remaining)"
          by (simp only: joined pl)
        finally show ?thesis using a by blast
      qed
      have "comm_size c' = comm_size c" "send_window_size c' = send_window_size c"
        "world_ok (comm_size c) world'"
        using n' w' wok' by (simp_all add: n1 n2 w1 w2)
      then show ?thesis
        using run inv' shipped_rel unfolding cap_def
        by (intro exI [of _ "runs # new"] exI [of _ world'] exI [of _ c']) simp
    next
      case finished: False
      then have ge: "remaining \<le> grant" by (simp add: min_def split: if_splits)
      then have sent: "min grant remaining = remaining" by simp
      have "grant = padded"
        unfolding padded_def using g8 ge gp [unfolded padded_def] by (rule padded_reached)
      then have st: "staged t c1 = staged t c @ mem_read ptr 0 (get_padded_length remaining)"
        using st1 pl by simp
      have "send_loop world log t (\<lambda>i. ptr (i + remaining)) 0 c1 = Some (Inr (log, world, c1))"
        by (subst send_loop.simps) simp
      then have "send_loop world log t ptr remaining c = Some (Inr (log @ [], world, c1))"
        using False as sent by (subst send_loop.simps) simp
      moreover have "shipped t [] = map Some [] \<and> concat [] @ staged t c1 =
          staged t c @ mem_read ptr 0 (get_padded_length remaining)"
        using st by (simp add: shipped_def)
      ultimately show ?thesis using inv1 n1 w1 wok by blast
    qed
  qed
qed

lemma length_le_bytes: "length (le_bytes k n) = k"
  by (induction k arbitrary: n) simp_all

lemma length_header_bytes: "length (header_bytes n) = 8"
  by (simp add: header_bytes_def length_le_bytes)

lemma get_padded_length_8: "get_padded_length 8 = 8"
  by (simp add: get_padded_length_def)

lemma header_read: "mem_read (\<lambda>i. header_bytes len ! i) 0 (get_padded_length 8) = header_bytes len"
  using map_nth [of "header_bytes len"]
  by (simp add: mem_read_def get_padded_length_8 length_header_bytes)

lemma shipped_append: "shipped t (xs @ ys) = shipped t xs @ shipped t ys"
  by (simp add: shipped_def)

lemma send_stages:
  assumes "sender_inv c" and "comm_size c * 8 \<le> send_window_size c"
      and "t < comm_size c" and "0 < len" and "len + 7 < 2 ^ 64"
      and "world_ok (comm_size c) world"
  shows "\<exists>new world' c'.
           send world t data len c = Some (Inr (new, world', c')) \<and>
           sender_inv c' \<and> comm_size c' = comm_size c \<and>
           send_window_size c' = send_window_size c \<and>
           world_ok (comm_size c) world' \<and>
           (t * max_sendlength_per_machine c < 2 ^ 34 \<and>
            max_sendlength_per_machine c < 2 ^ 34 \<longrightarrow>
              (\<exists>rs. shipped t new = map Some rs \<and>
                 concat rs @ staged t c' =
                   staged t c @ header_bytes len @ mem_read data 0 (get_padded_length len)))"
proof -
  have "(8::nat) + 7 < 2 ^ 64" by simp
  from send_loop_stages [OF assms(1,2,3) this assms(6), of "[]" "\<lambda>i. header_bytes len ! i"]
  obtain new1 world1 c1 where
    h: "send_loop world [] t (\<lambda>i. header_bytes len ! i) 8 c = Some (Inr (new1, world1, c1))"
    and inv1: "sender_inv c1" and n1: "comm_size c1 = comm_size c"
    and w1: "send_window_size c1 = send_window_size c"
    and wok1: "world_ok (comm_size c) world1"
    and rel1: "t * max_sendlength_per_machine c < 2 ^ 34 \<and>
            max_sendlength_per_machine c < 2 ^ 34 \<longrightarrow>
              (\<exists>rs. shipped t new1 = map Some rs \<and>
                 concat rs @ staged t c1 = staged t c @ header_bytes len)"
    by (auto simp: header_read)
  have cap1: "max_sendlength_per_machine c1 = max_sendlength_per_machine c"
    using assms(1) inv1 n1 w1 by (rule capacity_eq)
  have win1: "comm_size c1 * 8 \<le> send_window_size c1" using assms(2) by (simp add: n1 w1)
  have t1: "t < comm_size c1" using assms(3) by (simp add: n1)
  have wk1: "world_ok (comm_size c1) world1" using wok1 by (simp add: n1)
  from send_loop_stages [OF inv1 win1 t1 assms(5) wk1, of new1 data]
  obtain new2 world2 c2 where
    p: "send_loop world1 new1 t data len c1 = Some (Inr (new1 @ new2, world2, c2))"
    and inv2: "sender_inv c2" and n2: "comm_size c2 = comm_size c1"
    and w2: "send_window_size c2 = send_window_size c1"
    and wok2: "world_ok (comm_size c1) world2"
    and rel2: "t * max_sendlength_per_machine c1 < 2 ^ 34 \<and>
            max_sendlength_per_machine c1 < 2 ^ 34 \<longrightarrow>
              (\<exists>rs. shipped t new2 = map Some rs \<and>
                 concat rs @ staged t c2 =
                   staged t c1 @ mem_read data 0 (get_padded_length len))"
    by blast
  have s: "send world t data len c = Some (Inr (new1 @ new2, world2, c2))"
    using assms(3,4) h p by (simp add: send_def)
  have rel: "\<exists>rs. shipped t (new1 @ new2) = map Some rs \<and>
      concat rs @ staged t c2 =
        staged t c @ header_bytes len @ mem_read data 0 (get_padded_length len)"
    if fits: "t * max_sendlength_per_machine c < 2 ^ 34"
      "max_sendlength_per_machine c < 2 ^ 34"
  proof -
    obtain rs1 where a1: "shipped t new1 = map Some rs1"
      and b1: "concat rs1 @ staged t c1 = staged t c @ header_bytes len"
      using rel1 fits by auto
    obtain rs2 where a2: "shipped t new2 = map Some rs2"
      and b2: "concat rs2 @ staged t c2 =
                 staged t c1 @ mem_read data 0 (get_padded_length len)"
      using rel2 fits by (auto simp: cap1)
    have a: "shipped t (new1 @ new2) = map Some (rs1 @ rs2)"
      by (simp add: shipped_append a1 a2)
    have "concat (rs1 @ rs2) @ staged t c2 = concat rs1 @ (concat rs2 @ staged t c2)"
      by simp
    also have "\<dots> = (concat rs1 @ staged t c1) @ mem_read data 0 (get_padded_length len)"
      by (simp only: b2 append_assoc)
    also have "\<dots> = staged t c @ header_bytes len @ mem_read data 0 (get_padded_length len)"
      by (simp only: b1 append_assoc)
    finally show ?thesis using a by blast
  qed
  show ?thesis
    using s inv2 rel n1 n2 w1 w2 wok2 by (intro exI [of _ "new1 @ new2"] exI [of _ world2]
        exI [of _ c2]) simp
qed

lemma send_loop_never_returns:
  assumes "send_loop world log t ptr remaining c = Some y"
  shows "\<not> (0 < remaining \<and> get_padded_length remaining = 0 \<and> sender_inv c \<and>
            t < comm_size c \<and> world_ok (comm_size c) world)"
proof (rule send_loop.raw_induct
    [where P = "\<lambda>world log t ptr remaining c y.
       \<not> (0 < remaining \<and> get_padded_length remaining = 0 \<and> sender_inv c \<and>
          t < comm_size c \<and> world_ok (comm_size c) world)", OF _ assms])
  fix loop world log t ptr remaining c y
  assume ih: "\<And>world log t ptr remaining c y.
      loop world log t ptr remaining c = Some y \<Longrightarrow>
      \<not> (0 < remaining \<and> get_padded_length remaining = 0 \<and> sender_inv c \<and>
          t < comm_size c \<and> world_ok (comm_size c) world)"
    and body: "(if 0 < remaining
      then case actual_send t ptr remaining c of
           (sent, c1) \<Rightarrow>
             if 0 < remaining - sent
             then case flush (world 0) c1 of Inl e \<Rightarrow> Some (Inl e)
                  | Inr (exchanged, c2) \<Rightarrow>
                      loop (\<lambda>k. world (Suc k)) (log @ exchanged) t
                        (\<lambda>i. ptr (i + sent)) (remaining - sent) c2
             else loop world log t (\<lambda>i. ptr (i + sent)) (remaining - sent) c1
      else Some (Inr (log, world, c))) = Some y"
  show "\<not> (0 < remaining \<and> get_padded_length remaining = 0 \<and> sender_inv c \<and>
          t < comm_size c \<and> world_ok (comm_size c) world)"
  proof
    assume a: "0 < remaining \<and> get_padded_length remaining = 0 \<and> sender_inv c \<and>
          t < comm_size c \<and> world_ok (comm_size c) world"
    then have rem: "0 < remaining" "get_padded_length remaining = 0" and inv: "sender_inv c"
      and tn: "t < comm_size c" and wok: "world_ok (comm_size c) world"
      by simp_all
    have e: "alltoall_ok (world 0)" "alltoallv_ok (world 0)"
      "others_done (world 0) < comm_size c"
      using wok by (simp_all add: world_ok_def)
    obtain runs c2 where fl: "flush (world 0) c = Inr ([runs], c2)"
      and inv2: "sender_inv c2" and n2: "comm_size c2 = comm_size c"
      using flush_result [OF inv e] by blast
    have "loop (\<lambda>k. world (Suc k)) (log @ [runs]) t (\<lambda>i. ptr (i + 0)) remaining c2 = Some y"
      using body fl rem(1) by (simp add: actual_send_unpadded [OF rem(2)])
    from ih [OF this] show False
      using rem inv2 tn wok by (simp add: n2 world_ok_shift)
  qed
qed

lemma send_returns_only_sendable:
  assumes "sender_inv c" and "comm_size c * 8 \<le> send_window_size c"
      and "t < comm_size c" and "world_ok (comm_size c) world"
      and "0 < len" and "len < 2 ^ 64"
      and "send world t data len c = Some y"
  shows "len + 7 < 2 ^ 64"
proof (rule ccontr)
  assume big: "\<not> len + 7 < 2 ^ 64"
  have z: "get_padded_length len = 0" using assms(6) big by (rule get_padded_length_top)
  have "(8::nat) + 7 < 2 ^ 64" by simp
  from send_loop_stages [OF assms(1,2,3) this assms(4), of "[]" "\<lambda>i. header_bytes len ! i"]
  obtain log1 world1 c1 where
    h: "send_loop world [] t (\<lambda>i. header_bytes len ! i) 8 c = Some (Inr (log1, world1, c1))"
    and inv1: "sender_inv c1" and n1: "comm_size c1 = comm_size c"
    and wok1: "world_ok (comm_size c) world1"
    by auto
  have "send_loop world1 log1 t data len c1 = Some y"
    using assms(3,5,7) h by (simp add: send_def)
  from send_loop_never_returns [OF this] show False
    using assms(3,5) z inv1 wok1 by (simp add: n1)
qed

lemma quiet_world_ok: "0 < n \<Longrightarrow> world_ok n (\<lambda>_. quiet_env)"
  by (simp add: world_ok_def quiet_env_def)

lemma tight_comm_fields:
  "comm_size tight_comm = 2" "send_window_size tight_comm = 16"
  "cur_send_buffer tight_comm = 0" "sendlength tight_comm = (\<lambda>_. [0, 0])"
  "max_sendlength_per_machine tight_comm = 8"
  by (simp_all add: tight_comm_def mpi_comm_init_def replicate_2)

lemma tight_comm_inv: "sender_inv tight_comm"
  unfolding tight_comm_def by (rule sender_inv_init) simp_all

text \<open>
  C3. In a state of the sending thread (\<open>sender_inv\<close>) with a window of at least
  \<open>N * 8\<close> bytes, a target that is a peer, a length above 0 whose round-up fits a
  \<^verbatim>\<open>size_t\<close> (\<open>len + 7 < 2 ^ 64\<close>), and a world in which every flush takes place and
  succeeds (so that each flush resets the drained group), \<open>send\<close> returns, without a
  failed assertion, in a state of the same kind. The progress behind it: after any such
  flush the next stage for the target grants at least one byte.
\<close>

theorem send_terminates:
  assumes "sender_inv c" and "comm_size c * 8 \<le> send_window_size c"
      and "targetmachine < comm_size c" and "0 < len" and "len + 7 < 2 ^ 64"
      and "world_ok (comm_size c) world"
  shows "(\<exists>log world' c'.
            send world targetmachine data len c = Some (Inr (log, world', c')) \<and>
            sender_inv c') \<and>
         (\<forall>env. alltoall_ok env \<and> alltoallv_ok env \<and> others_done env < comm_size c \<longrightarrow>
            (\<exists>exchanged c1. flush env c = Inr (exchanged, c1) \<and>
               0 < fst (actual_send targetmachine data len c1)))"
proof -
  have "\<exists>log world' c'.
            send world targetmachine data len c = Some (Inr (log, world', c')) \<and>
            sender_inv c'"
    using send_stages [OF assms, of data] by blast
  moreover have "\<exists>exchanged c1. flush env c = Inr (exchanged, c1) \<and>
               0 < fst (actual_send targetmachine data len c1)"
    if env: "alltoall_ok env \<and> alltoallv_ok env \<and> others_done env < comm_size c" for env
  proof -
    from env have e: "alltoall_ok env" "alltoallv_ok env" "others_done env < comm_size c"
      by simp_all
    obtain runs c1 where fl: "flush env c = Inr ([runs], c1)"
      and inv1: "sender_inv c1"
      and z: "sendlength c1 (cur_send_buffer c1 mod 2) = replicate (comm_size c) 0"
      and n1: "comm_size c1 = comm_size c"
      and w1: "send_window_size c1 = send_window_size c"
      using flush_result [OF assms(1) e] by blast
    have win1: "comm_size c1 * 8 \<le> send_window_size c1" using assms(2) by (simp add: n1 w1)
    have cap: "8 \<le> max_sendlength_per_machine c1"
      using inv1 win1 by (rule capacity_at_least_8)
    have t1: "targetmachine < comm_size c1" using assms(3) by (simp add: n1)
    have slot: "sendlength c1 (cur_send_buffer c1 mod 2) ! targetmachine = 0"
      using z assms(3) by simp
    define grant where "grant = min (max_sendlength_per_machine c1
                         - sendlength c1 (cur_send_buffer c1 mod 2) ! targetmachine)
                       ((len + 7) div 8 * 8)"
    obtain c2 where "actual_send targetmachine data len c1 = (min grant len, c2)"
      using actual_send_step [OF inv1 t1 assms(5) grant_def] by blast
    moreover have "len \<le> (len + 7) div 8 * 8" by presburger
    then have "0 < min grant len" using assms(4) cap slot by (simp add: grant_def)
    ultimately show ?thesis using fl by simp
  qed
  ultimately show ?thesis by blast
qed

theorem send_terminates_witness:
  "sender_inv tight_comm \<and>
   comm_size tight_comm * 8 \<le> send_window_size tight_comm \<and>
   world_ok (comm_size tight_comm) (\<lambda>_. quiet_env) \<and>
   (\<exists>log world' c'.
      send (\<lambda>_. quiet_env) 1 (\<lambda>_. 7) 5 tight_comm = Some (Inr (log, world', c')) \<and>
      sender_inv c')"
proof -
  have w: "comm_size tight_comm * 8 \<le> send_window_size tight_comm"
    by (simp add: tight_comm_fields)
  have t: "1 < comm_size tight_comm" by (simp add: tight_comm_fields)
  have k: "world_ok (comm_size tight_comm) (\<lambda>_. quiet_env)"
    by (rule quiet_world_ok) (simp add: tight_comm_fields)
  have "(0::nat) < 5" and "(5::nat) + 7 < 2 ^ 64" by simp_all
  from send_terminates [OF tight_comm_inv w t this k, of "\<lambda>_. 7"]
  have "\<exists>log world' c'.
      send (\<lambda>_. quiet_env) 1 (\<lambda>_. 7) 5 tight_comm = Some (Inr (log, world', c')) \<and>
      sender_inv c'"
    by blast
  then show ?thesis using tight_comm_inv w k by blast
qed

text \<open>
  C3, as stated for every length above 0, fails at the top of the \<^verbatim>\<open>size_t\<close> range.
  With two peers, a window of 16 bytes and a world in which every flush succeeds,
  \<open>send\<close> of \<open>2 ^ 64 - 1\<close> bytes stages the header; then the padded length of what
  remains is 0, every stage grants 0 bytes on an empty slot, and the payload loop
  flushes without end: \<open>send\<close> never returns.
\<close>

theorem send_spins_on_huge_length:
  "sender_inv tight_comm \<and>
   comm_size tight_comm * 8 \<le> send_window_size tight_comm \<and>
   world_ok (comm_size tight_comm) (\<lambda>_. quiet_env) \<and>
   send (\<lambda>_. quiet_env) 1 (\<lambda>_. 7) 18446744073709551615 tight_comm = None"
proof -
  have w: "comm_size tight_comm * 8 \<le> send_window_size tight_comm"
    by (simp add: tight_comm_fields)
  have t: "1 < comm_size tight_comm" by (simp add: tight_comm_fields)
  have k: "world_ok (comm_size tight_comm) (\<lambda>_. quiet_env)"
    by (rule quiet_world_ok) (simp add: tight_comm_fields)
  have p: "(0::nat) < 18446744073709551615" "(18446744073709551615::nat) < 2 ^ 64"
    by simp_all
  have "send (\<lambda>_. quiet_env) 1 (\<lambda>_. 7) 18446744073709551615 tight_comm = None"
  proof (cases "send (\<lambda>_. quiet_env) 1 (\<lambda>_. 7) 18446744073709551615 tight_comm")
    case None
    then show ?thesis .
  next
    case (Some y)
    from send_returns_only_sendable [OF tight_comm_inv w t k p Some]
    show ?thesis by simp
  qed
  then show ?thesis using tight_comm_inv w k by simp
qed

section \<open>Parsing frames\<close>















section \<open>Round trip\<close>











end
